theory Spec2Isabelle
  imports Main "HOL-Library.AList"
begin

section \<open>Wire vocabulary and outcomes\<close>

type_synonym mac = string
type_synonym community = string
type_synonym payload = string

text \<open>
  The three relayed messages (\<^verbatim>\<open>api.Offer\<close>, \<^verbatim>\<open>api.Answer\<close>, \<^verbatim>\<open>api.Candidate\<close>) share one
  shape; the handlers read the fields \<^verbatim>\<open>Payload\<close>, \<^verbatim>\<open>SenderMac\<close> and \<^verbatim>\<open>ReceiverMac\<close>.
\<close>

record relayed =
  Payload :: payload
  SenderMac :: mac
  ReceiverMac :: mac

text \<open>
  Modelled from the spec: the message set of \<^verbatim>\<open>pkg/api/websockets/v1\<close>, which is imported by the
  handlers but is not among the sources. One constructor per opcode of the wire table.
\<close>

datatype message =
    Application community mac
  | Acceptance
  | Rejection
  | Ready mac
  | Introduction mac
  | Offer relayed
  | Answer relayed
  | Candidate relayed
  | Exited mac
  | Resignation mac

text \<open>
  A Go handler either returns an \<^verbatim>\<open>error\<close> (\<open>None\<close> is \<^verbatim>\<open>nil\<close>) or panics. The state is
  returned beside the outcome, because what a handler has mutated before an early return
  stays mutated.
\<close>

datatype error =
    WriteFailed
  | NoCommunity
  | UnmarshalFailed
  | SetRemoteDescriptionFailed
  | AddICECandidateFailed
  | MarshalFailed
  | SendFailed

datatype panic = NilDereference | SliceBounds | NegativeWaitGroup

datatype outcome = Returned "error option" | Panicked panic

section \<open>The rendezvous server: \<^verbatim>\<open>CommunitiesManager\<close>\<close>

text \<open>
  \<^verbatim>\<open>macs\<close> is a \<^verbatim>\<open>map[string]websocket.Conn\<close>: it stores connection values, and indexing it
  with a key that is not present yields the zero value of the struct, here \<open>ZeroConn\<close>.
\<close>

datatype conn = ZeroConn | Conn nat

text \<open>
  \<^verbatim>\<open>communities\<close> is a Go map that \<^verbatim>\<open>getCommunity\<close> ranges over. It is kept as an association
  list whose order stands for the order in which \<^verbatim>\<open>range\<close> visits the keys; Go leaves that
  order open, and so every statement below is about an arbitrary list, and
  \<open>getCommunity_order_free\<close> shows that in the states the server reaches the order makes no
  difference. Index, assignment and \<^verbatim>\<open>delete\<close> are \<open>map_of\<close>, \<open>AList.update\<close> and
  \<open>AList.delete\<close>.
\<close>

record CommunitiesManager =
  communities :: "(community \<times> mac list) list"
  macs :: "mac \<rightharpoonup> conn"
  introducedPeers :: "(mac \<times> mac) list"

definition NewCommunitiesManager :: CommunitiesManager where
  "NewCommunitiesManager = \<lparr>communities = [], macs = Map.empty, introducedPeers = []\<rparr>"

text \<open>
  \<^verbatim>\<open>wsjson.Write\<close> belongs to the transport, outside the sources. Whether a write on a
  live connection returns \<^verbatim>\<open>nil\<close> is a parameter of every handler (\<open>True\<close>: the write
  returned \<^verbatim>\<open>nil\<close>). A delivery records a write that returned \<^verbatim>\<open>nil\<close>: the mac whose sink
  was looked up, the connection written to, and the message.
\<close>

type_synonym writer = "conn \<Rightarrow> message \<Rightarrow> bool"
type_synonym delivery = "mac \<times> conn \<times> message"

text \<open>
  \<^verbatim>\<open>m.macs[mac]\<close> and \<^verbatim>\<open>m.communities[community]\<close> as Go evaluates them on a missing key,
  and \<^verbatim>\<open>delete(m.macs, mac)\<close>.
\<close>

definition conn_at :: "(mac \<rightharpoonup> conn) \<Rightarrow> mac \<Rightarrow> conn" where
  "conn_at ms k = (case ms k of None \<Rightarrow> ZeroConn | Some c \<Rightarrow> c)"

definition delete_mac :: "(mac \<rightharpoonup> conn) \<Rightarrow> mac \<Rightarrow> (mac \<rightharpoonup> conn)" where
  "delete_mac ms k = ms(k := None)"

text \<open>
  \<^verbatim>\<open>wsjson.Write(ctx, &receiver, msg)\<close> on the receiver that \<^verbatim>\<open>m.macs[k]\<close> yields. The
  connections in the map are copies of the live connections that \<^verbatim>\<open>HandleApplication\<close> stored,
  and on those the transport decides. For a key that is not present the receiver is the
  zero value of the struct, which has no writer state: the write is taken to dereference
  \<^verbatim>\<open>nil\<close> and panic.
\<close>

definition write_receiver :: "writer \<Rightarrow> (mac \<rightharpoonup> conn) \<Rightarrow> mac \<Rightarrow> message \<Rightarrow> outcome" where
  "write_receiver wr ms k msg =
     (case ms k of
        None \<Rightarrow> Panicked NilDereference
      | Some receiver \<Rightarrow>
          if \<not> wr receiver msg then Returned (Some WriteFailed) else Returned None)"

definition roster_at :: "(community \<times> mac list) list \<Rightarrow> community \<Rightarrow> mac list" where
  "roster_at cs k = (case map_of cs k of None \<Rightarrow> [] | Some r \<Rightarrow> r)"

definition HandleApplication ::
  "writer \<Rightarrow> community \<Rightarrow> mac \<Rightarrow> conn \<Rightarrow> CommunitiesManager
     \<Rightarrow> outcome \<times> CommunitiesManager \<times> delivery list" where
  "HandleApplication wr community mac conn m =
     (if macs m mac \<noteq> None then
        (if \<not> wr conn Rejection then (Returned (Some WriteFailed), m, [])
         else (Returned None, m, [(mac, conn, Rejection)]))
      else
        let m1 = m\<lparr>macs := (macs m)(mac \<mapsto> conn)\<rparr> in
        if map_of (communities m1) community \<noteq> None then
          let m2 = m1\<lparr>communities :=
                  AList.update community (roster_at (communities m1) community @ [mac])
                    (communities m1)\<rparr> in
          if \<not> wr conn Acceptance then (Returned (Some WriteFailed), m2, [])
          else (Returned None, m2, [(mac, conn, Acceptance)])
        else
          let m2 = m1\<lparr>communities :=
                  AList.update community (roster_at (communities m1) community @ [mac])
                    (communities m1)\<rparr> in
          if \<not> wr conn Acceptance then (Returned (Some WriteFailed), m2, [])
          else (Returned None, m2, [(mac, conn, Acceptance)]))"

text \<open>
  \<^verbatim>\<open>getCommunity\<close>: the first community, in the order of the range, whose roster holds the
  mac; the inner index loop is membership in the roster.
\<close>

fun getCommunity_loop :: "(community \<times> mac list) list \<Rightarrow> mac \<Rightarrow> community option" where
  "getCommunity_loop [] mac = None"
| "getCommunity_loop ((key, element) # rest) mac =
     (if mac \<in> set element then Some key else getCommunity_loop rest mac)"

definition getCommunity :: "CommunitiesManager \<Rightarrow> mac \<Rightarrow> error + community" where
  "getCommunity m mac =
     (case getCommunity_loop (communities m) mac of
        None \<Rightarrow> Inl NoCommunity
      | Some key \<Rightarrow> Inr key)"

definition introduce :: "CommunitiesManager \<Rightarrow> mac \<Rightarrow> mac \<Rightarrow> CommunitiesManager" where
  "introduce m firstMac secondMac =
     m\<lparr>introducedPeers := introducedPeers m @ [(firstMac, secondMac)]\<rparr>"

fun introduced_loop :: "(mac \<times> mac) list \<Rightarrow> mac \<Rightarrow> mac \<Rightarrow> bool" where
  "introduced_loop [] firstMac secondMac = False"
| "introduced_loop (pair # rest) firstMac secondMac =
     (if fst pair = firstMac \<and> snd pair = secondMac then True
      else if fst pair = secondMac \<and> snd pair = firstMac then True
      else introduced_loop rest firstMac secondMac)"

definition introduced :: "CommunitiesManager \<Rightarrow> mac \<Rightarrow> mac \<Rightarrow> bool" where
  "introduced m firstMac secondMac = introduced_loop (introducedPeers m) firstMac secondMac"

fun removeAssociatedPairs_loop :: "(mac \<times> mac) list \<Rightarrow> mac \<Rightarrow> (mac \<times> mac) list" where
  "removeAssociatedPairs_loop [] mac = []"
| "removeAssociatedPairs_loop (pair # rest) mac =
     (if fst pair = mac \<or> snd pair = mac then removeAssociatedPairs_loop rest mac
      else pair # removeAssociatedPairs_loop rest mac)"

definition removeAssociatedPairs :: "CommunitiesManager \<Rightarrow> mac \<Rightarrow> CommunitiesManager" where
  "removeAssociatedPairs m mac =
     m\<lparr>introducedPeers := removeAssociatedPairs_loop (introducedPeers m) mac\<rparr>"

text \<open>
  \<^verbatim>\<open>deleteCommunity\<close>: the loop keeps the index of the last element equal to \<^verbatim>\<open>str\<close> (0 when
  there is none), and \<^verbatim>\<open>append(s[:i], s[i+1:]...)\<close> cuts that element out. On an empty slice
  \<^verbatim>\<open>s[1:]\<close> is out of range, which panics.
\<close>

fun deleteCommunity_loop :: "mac list \<Rightarrow> mac \<Rightarrow> nat \<Rightarrow> nat \<Rightarrow> nat" where
  "deleteCommunity_loop [] str index elementIndex = elementIndex"
| "deleteCommunity_loop (element # rest) str index elementIndex =
     deleteCommunity_loop rest str (Suc index) (if element = str then index else elementIndex)"

definition deleteCommunity :: "mac list \<Rightarrow> mac \<Rightarrow> panic + mac list" where
  "deleteCommunity s str =
     (let elementIndex = deleteCommunity_loop s str 0 0 in
      if length s < elementIndex + 1 then Inl SliceBounds
      else Inr (take elementIndex s @ drop (elementIndex + 1) s))"

text \<open>The body of the loop of \<^verbatim>\<open>HandleReady\<close> over the roster of the community.\<close>

fun HandleReady_loop ::
  "writer \<Rightarrow> mac \<Rightarrow> mac list \<Rightarrow> CommunitiesManager \<Rightarrow> delivery list
     \<Rightarrow> outcome \<times> CommunitiesManager \<times> delivery list" where
  "HandleReady_loop wr ready [] m out = (Returned None, m, out)"
| "HandleReady_loop wr ready (mac # rest) m out =
     (if mac \<noteq> ready then
        let receiver = conn_at (macs m) mac in
        if \<not> introduced m ready mac then
          let err = write_receiver wr (macs m) mac (Introduction ready) in
          if err \<noteq> Returned None then (err, m, out)
          else HandleReady_loop wr ready rest (introduce m ready mac)
                 (out @ [(mac, receiver, Introduction ready)])
        else HandleReady_loop wr ready rest m out
      else HandleReady_loop wr ready rest m out)"

definition HandleReady ::
  "writer \<Rightarrow> mac \<Rightarrow> CommunitiesManager \<Rightarrow> outcome \<times> CommunitiesManager \<times> delivery list" where
  "HandleReady wr ready m =
     (case getCommunity m ready of
        Inl err \<Rightarrow> (Returned (Some err), m, [])
      | Inr community \<Rightarrow>
          HandleReady_loop wr ready (roster_at (communities m) community) m [])"

text \<open>
  The three relay handlers have the same body. None of them tests whether the receiver is
  in the map.
\<close>

definition CommunitiesManager_HandleOffer ::
  "writer \<Rightarrow> relayed \<Rightarrow> CommunitiesManager \<Rightarrow> outcome \<times> CommunitiesManager \<times> delivery list" where
  "CommunitiesManager_HandleOffer wr offer m =
     (let receiver = conn_at (macs m) (ReceiverMac offer);
          err = write_receiver wr (macs m) (ReceiverMac offer) (Offer offer) in
      if err \<noteq> Returned None then (err, m, [])
      else (Returned None, m, [(ReceiverMac offer, receiver, Offer offer)]))"

definition CommunitiesManager_HandleAnswer ::
  "writer \<Rightarrow> relayed \<Rightarrow> CommunitiesManager \<Rightarrow> outcome \<times> CommunitiesManager \<times> delivery list" where
  "CommunitiesManager_HandleAnswer wr answer m =
     (let receiver = conn_at (macs m) (ReceiverMac answer);
          err = write_receiver wr (macs m) (ReceiverMac answer) (Answer answer) in
      if err \<noteq> Returned None then (err, m, [])
      else (Returned None, m, [(ReceiverMac answer, receiver, Answer answer)]))"

definition CommunitiesManager_HandleCandidate ::
  "writer \<Rightarrow> relayed \<Rightarrow> CommunitiesManager \<Rightarrow> outcome \<times> CommunitiesManager \<times> delivery list" where
  "CommunitiesManager_HandleCandidate wr candidate m =
     (let receiver = conn_at (macs m) (ReceiverMac candidate);
          err = write_receiver wr (macs m) (ReceiverMac candidate) (Candidate candidate) in
      if err \<noteq> Returned None then (err, m, [])
      else (Returned None, m, [(ReceiverMac candidate, receiver, Candidate candidate)]))"

text \<open>The broadcast loop of \<^verbatim>\<open>HandleExited\<close>; it mutates nothing.\<close>

fun HandleExited_loop ::
  "writer \<Rightarrow> mac \<Rightarrow> mac list \<Rightarrow> (mac \<rightharpoonup> conn) \<Rightarrow> delivery list
     \<Rightarrow> outcome \<times> delivery list" where
  "HandleExited_loop wr exited [] ms out = (Returned None, out)"
| "HandleExited_loop wr exited (mac # rest) ms out =
     (if mac \<noteq> exited then
        let receiver = conn_at ms mac;
            err = write_receiver wr ms mac (Resignation exited) in
        if err \<noteq> Returned None then (err, out)
        else HandleExited_loop wr exited rest ms (out @ [(mac, receiver, Resignation exited)])
      else HandleExited_loop wr exited rest ms out)"

definition HandleExited ::
  "writer \<Rightarrow> mac \<Rightarrow> CommunitiesManager \<Rightarrow> outcome \<times> CommunitiesManager \<times> delivery list" where
  "HandleExited wr exited m =
     (case getCommunity m exited of
        Inl err \<Rightarrow> (Returned (Some err), m, [])
      | Inr community \<Rightarrow>
          let m1 = removeAssociatedPairs m exited in
          (case HandleExited_loop wr exited (roster_at (communities m1) community) (macs m1) [] of
             (err, out) \<Rightarrow>
               if err \<noteq> Returned None then (err, m1, out)
               else
                 let m2 = m1\<lparr>macs := delete_mac (delete_mac (macs m1) exited) exited\<rparr> in
                 (case deleteCommunity (roster_at (communities m2) community) exited of
                    Inl p \<Rightarrow> (Panicked p, m2, out)
                  | Inr s \<Rightarrow>
                      let m3 = m2\<lparr>communities := AList.update community s (communities m2)\<rparr> in
                      if length (roster_at (communities m3) community) = 0
                      then (Returned None,
                            m3\<lparr>communities := AList.delete community (communities m3)\<rparr>, out)
                      else (Returned None, m3, out))))"

section \<open>The client: \<^verbatim>\<open>ClientManager\<close>\<close>

text \<open>
  The peer-connection stack (\<^verbatim>\<open>webrtc.PeerConnection\<close>, \<^verbatim>\<open>webrtc.DataChannel\<close>) and
  \<^verbatim>\<open>encoding/json\<close> are libraries outside the sources. A peer connection is represented by
  what the handlers can observe and cause: whether a remote description is installed
  (\<^verbatim>\<open>RemoteDescription() != nil\<close>), and the calls that returned \<^verbatim>\<open>nil\<close> on it, in order. Whether
  a library call succeeds is a parameter of the handlers, the record \<open>stack\<close>; a call that
  fails leaves the connection as it was.
\<close>

type_synonym sdp = string

datatype call = SetRemoteDescriptionCall sdp | AddICECandidateCall payload

record PeerConnection =
  remoteDescription :: "sdp option"
  history :: "call list"

datatype DataChannel = DataChannel nat

record stack =
  unmarshal :: "payload \<Rightarrow> sdp option"
  setRemoteDescription_ok :: "PeerConnection \<Rightarrow> sdp \<Rightarrow> bool"
  addICECandidate_ok :: "PeerConnection \<Rightarrow> payload \<Rightarrow> bool"
  marshal :: "mac \<Rightarrow> payload \<Rightarrow> payload option"
  send_ok :: "DataChannel \<Rightarrow> payload \<Rightarrow> bool"

definition SetRemoteDescription ::
  "stack \<Rightarrow> PeerConnection \<Rightarrow> sdp \<Rightarrow> error option \<times> PeerConnection" where
  "SetRemoteDescription st pc desc =
     (if setRemoteDescription_ok st pc desc
      then (None, pc\<lparr>remoteDescription := Some desc,
                      history := history pc @ [SetRemoteDescriptionCall desc]\<rparr>)
      else (Some SetRemoteDescriptionFailed, pc))"

definition AddICECandidate ::
  "stack \<Rightarrow> PeerConnection \<Rightarrow> payload \<Rightarrow> error option \<times> PeerConnection" where
  "AddICECandidate st pc candidate =
     (if addICECandidate_ok st pc candidate
      then (None, pc\<lparr>history := history pc @ [AddICECandidateCall candidate]\<rparr>)
      else (Some AddICECandidateFailed, pc))"

text \<open>
  \<^verbatim>\<open>peers\<close> is a \<^verbatim>\<open>map[string]*peer\<close>, kept as an association list for the range in
  \<^verbatim>\<open>SendMessage\<close>. The field \<^verbatim>\<open>channel\<close> is \<^verbatim>\<open>nil\<close> (\<open>None\<close>) until the data channel has
  opened. The field \<^verbatim>\<open>mac\<close> of the manager is called \<open>own_mac\<close> here.
\<close>

record peer =
  connection :: PeerConnection
  channel :: "DataChannel option"
  candidates :: "payload list"

record ClientManager =
  peers :: "(mac \<times> peer) list"
  own_mac :: mac

text \<open>
  \<^verbatim>\<open>m.peers[mac]\<close> followed by a field access: the index yields a \<^verbatim>\<open>nil\<close> pointer for a key
  that is not present, and dereferencing it panics.
\<close>

definition peer_at :: "ClientManager \<Rightarrow> mac \<Rightarrow> panic + peer" where
  "peer_at m k = (case map_of (peers m) k of None \<Rightarrow> Inl NilDereference | Some p \<Rightarrow> Inr p)"

definition getPeerConnection ::
  "ClientManager \<Rightarrow> mac \<Rightarrow> panic + (PeerConnection \<times> error option)" where
  "getPeerConnection m k =
     (case peer_at m k of Inl p \<Rightarrow> Inl p | Inr pr \<Rightarrow> Inr (connection pr, None))"

text \<open>
  The handlers hold a pointer to the connection of the peer: what a call does to the
  connection is seen through the map. \<open>store_connection\<close> writes the connection back into
  the entry; the other two are the assignments to \<^verbatim>\<open>m.peers[mac].candidates\<close>.
\<close>

definition store_connection :: "ClientManager \<Rightarrow> mac \<Rightarrow> PeerConnection \<Rightarrow> ClientManager" where
  "store_connection m k pc =
     m\<lparr>peers := AList.map_entry k (\<lambda>p. p\<lparr>connection := pc\<rparr>) (peers m)\<rparr>"

definition append_candidate :: "ClientManager \<Rightarrow> mac \<Rightarrow> payload \<Rightarrow> ClientManager" where
  "append_candidate m k c =
     m\<lparr>peers := AList.map_entry k (\<lambda>p. p\<lparr>candidates := candidates p @ [c]\<rparr>) (peers m)\<rparr>"

definition clear_candidates :: "ClientManager \<Rightarrow> mac \<Rightarrow> ClientManager" where
  "clear_candidates m k =
     m\<lparr>peers := AList.map_entry k (\<lambda>p. p\<lparr>candidates := []\<rparr>) (peers m)\<rparr>"

text \<open>
  \<^verbatim>\<open>wg.Done()\<close> on the wait group that \<^verbatim>\<open>HandleConn\<close> passes to the handlers: the counter
  goes down by one, and a negative counter panics.
\<close>

definition wg_Done :: "ClientManager \<Rightarrow> int \<Rightarrow> outcome \<times> ClientManager \<times> int" where
  "wg_Done m wg =
     (if wg - 1 < 0 then (Panicked NegativeWaitGroup, m, wg - 1) else (Returned None, m, wg - 1))"

text \<open>The drain loop of \<^verbatim>\<open>HandleAnswer\<close> over the buffered candidates.\<close>

fun HandleAnswer_loop ::
  "stack \<Rightarrow> payload list \<Rightarrow> PeerConnection \<Rightarrow> error option \<times> PeerConnection" where
  "HandleAnswer_loop st [] pc = (None, pc)"
| "HandleAnswer_loop st (candidate # rest) pc =
     (case AddICECandidate st pc candidate of
        (Some err, pc') \<Rightarrow> (Some err, pc')
      | (None, pc') \<Rightarrow> HandleAnswer_loop st rest pc')"

definition ClientManager_HandleAnswer ::
  "stack \<Rightarrow> int \<Rightarrow> relayed \<Rightarrow> ClientManager \<Rightarrow> outcome \<times> ClientManager \<times> int" where
  "ClientManager_HandleAnswer st wg answer m =
     (case unmarshal st (Payload answer) of
        None \<Rightarrow> (Returned (Some UnmarshalFailed), m, wg)
      | Some answer_val \<Rightarrow>
          (case getPeerConnection m (SenderMac answer) of
             Inl p \<Rightarrow> (Panicked p, m, wg)
           | Inr (peerConnection, err) \<Rightarrow>
               if err \<noteq> None then (Returned err, m, wg)
               else
                 (case SetRemoteDescription st peerConnection answer_val of
                    (Some e, pc1) \<Rightarrow> (Returned (Some e), m, wg)
                  | (None, pc1) \<Rightarrow>
                      let m1 = store_connection m (SenderMac answer) pc1 in
                      (case peer_at m1 (SenderMac answer) of
                         Inl p \<Rightarrow> (Panicked p, m1, wg)
                       | Inr pr \<Rightarrow>
                           if length (candidates pr) > 0 then
                             (case HandleAnswer_loop st (candidates pr) pc1 of
                                (Some e, pc2) \<Rightarrow>
                                  (Returned (Some e),
                                   store_connection m1 (SenderMac answer) pc2, wg)
                              | (None, pc2) \<Rightarrow>
                                  wg_Done
                                    (clear_candidates
                                       (store_connection m1 (SenderMac answer) pc2)
                                       (SenderMac answer))
                                    wg)
                           else wg_Done m1 wg))))"

definition ClientManager_HandleCandidate ::
  "stack \<Rightarrow> relayed \<Rightarrow> ClientManager \<Rightarrow> outcome \<times> ClientManager" where
  "ClientManager_HandleCandidate st candidate m =
     (case getPeerConnection m (SenderMac candidate) of
        Inl p \<Rightarrow> (Panicked p, m)
      | Inr (peerConnection, err) \<Rightarrow>
          if err \<noteq> None then (Returned err, m)
          else if remoteDescription peerConnection \<noteq> None then
            (case AddICECandidate st peerConnection (Payload candidate) of
               (Some e, pc1) \<Rightarrow> (Returned (Some e), m)
             | (None, pc1) \<Rightarrow>
                 (Returned None,
                  append_candidate (store_connection m (SenderMac candidate) pc1)
                    (SenderMac candidate) (Payload candidate)))
          else
            (Returned None,
             append_candidate m (SenderMac candidate) (Payload candidate)))"

definition HandleResignation :: "ClientManager \<Rightarrow> outcome \<times> ClientManager" where
  "HandleResignation m = (Returned None, m)"

text \<open>
  The case \<^verbatim>\<open>api.OpcodeResignation\<close> of the receive loop in \<^verbatim>\<open>HandleConn\<close>: the mac of the
  message is logged, \<^verbatim>\<open>onResignation\<close> is called without it, and its result is dropped.
\<close>

definition HandleConn_Resignation :: "mac \<Rightarrow> ClientManager \<Rightarrow> ClientManager" where
  "HandleConn_Resignation resignation m = snd (HandleResignation m)"

text \<open>
  \<^verbatim>\<open>SendMessage\<close>: the range visits the keys in the order of the list. \<^verbatim>\<open>Send\<close> on a channel
  that is still \<^verbatim>\<open>nil\<close> is taken to panic. The second component lists the \<^verbatim>\<open>Send\<close> calls made.
\<close>

fun SendMessage_loop ::
  "stack \<Rightarrow> payload \<Rightarrow> ClientManager \<Rightarrow> mac list \<Rightarrow> outcome \<times> (DataChannel \<times> payload) list" where
  "SendMessage_loop st wrappedMsg m [] = (Returned None, [])"
| "SendMessage_loop st wrappedMsg m (key # rest) =
     (if key \<noteq> own_mac m then
        (case peer_at m key of
           Inl p \<Rightarrow> (Panicked p, [])
         | Inr pr \<Rightarrow>
             (case channel pr of
                None \<Rightarrow> (Panicked NilDereference, [])
              | Some dc \<Rightarrow>
                  let err = (if send_ok st dc wrappedMsg then None else Some SendFailed) in
                  if err \<noteq> None then (Returned None, [(dc, wrappedMsg)])
                  else (Returned err, [(dc, wrappedMsg)])))
      else SendMessage_loop st wrappedMsg m rest)"

definition SendMessage ::
  "stack \<Rightarrow> payload \<Rightarrow> ClientManager \<Rightarrow> outcome \<times> (DataChannel \<times> payload) list" where
  "SendMessage st msg m =
     (case marshal st (own_mac m) msg of
        None \<Rightarrow> (Returned (Some MarshalFailed), [])
      | Some wrappedMsg \<Rightarrow> SendMessage_loop st wrappedMsg m (map fst (peers m)))"

definition SendMessageUnicast ::
  "stack \<Rightarrow> payload \<Rightarrow> mac \<Rightarrow> ClientManager \<Rightarrow> outcome \<times> (DataChannel \<times> payload) list" where
  "SendMessageUnicast st msg k m =
     (case marshal st (own_mac m) msg of
        None \<Rightarrow> (Returned (Some MarshalFailed), [])
      | Some wrappedMsg \<Rightarrow>
          (case peer_at m k of
             Inl p \<Rightarrow> (Panicked p, [])
           | Inr pr \<Rightarrow>
               (case channel pr of
                  None \<Rightarrow> (Panicked NilDereference, [])
                | Some dc \<Rightarrow>
                    let err = (if send_ok st dc wrappedMsg then None else Some SendFailed) in
                    if err \<noteq> None then (Returned None, [(dc, wrappedMsg)])
                    else (Returned err, [(dc, wrappedMsg)]))))"

text \<open>
  The messages of one remote as the receive loop of \<^verbatim>\<open>HandleConn\<close> hands them to the
  handlers: the error a handler returns is dropped and the loop goes on; a panic ends the
  process.
\<close>

datatype inbound = InAnswer relayed | InCandidate relayed | InResignation mac

fun HandleConn_loop ::
  "stack \<Rightarrow> inbound list \<Rightarrow> ClientManager \<Rightarrow> int \<Rightarrow> panic option \<times> ClientManager \<times> int" where
  "HandleConn_loop st [] m wg = (None, m, wg)"
| "HandleConn_loop st (InAnswer answer # rest) m wg =
     (case ClientManager_HandleAnswer st wg answer m of
        (Panicked p, m', wg') \<Rightarrow> (Some p, m', wg')
      | (Returned err, m', wg') \<Rightarrow> HandleConn_loop st rest m' wg')"
| "HandleConn_loop st (InCandidate candidate # rest) m wg =
     (case ClientManager_HandleCandidate st candidate m of
        (Panicked p, m') \<Rightarrow> (Some p, m', wg)
      | (Returned err, m') \<Rightarrow> HandleConn_loop st rest m' wg)"
| "HandleConn_loop st (InResignation resignation # rest) m wg =
     HandleConn_loop st rest (HandleConn_Resignation resignation m) wg"

section \<open>Invariants and runs of the server\<close>

text \<open>
  The macs of all rosters, community after community. The invariant of the server state:
  the keys of \<^verbatim>\<open>communities\<close> are unique (it is a map), no mac occurs twice across the
  rosters, the macs in the rosters are the macs with an endpoint entry, and no roster is
  empty.
\<close>

definition all_macs :: "(community \<times> mac list) list \<Rightarrow> mac list" where
  "all_macs cs = concat (map snd cs)"

definition roster_invariant :: "CommunitiesManager \<Rightarrow> bool" where
  "roster_invariant m =
     (distinct (map fst (communities m))
      \<and> distinct (all_macs (communities m))
      \<and> set (all_macs (communities m)) = dom (macs m)
      \<and> [] \<notin> set (map snd (communities m)))"

text \<open>Every Resignation write of the broadcast for \<open>exited\<close> over a roster returns \<^verbatim>\<open>nil\<close>.\<close>

definition resignations_accepted :: "writer \<Rightarrow> mac \<Rightarrow> mac list \<Rightarrow> (mac \<rightharpoonup> conn) \<Rightarrow> bool" where
  "resignations_accepted wr exited roster ms =
     list_all (\<lambda>x. x = exited \<or> wr (conn_at ms x) (Resignation exited)) roster"

text \<open>
  The events of the server, each handled under some behaviour of the transport; \<open>process\<close>
  keeps the state a handler leaves behind, whatever it returned.
\<close>

datatype event =
    OnApplication community mac conn
  | OnReady mac
  | OnOffer relayed
  | OnAnswer relayed
  | OnCandidate relayed
  | OnExited mac

fun process :: "writer \<Rightarrow> event \<Rightarrow> CommunitiesManager \<Rightarrow> CommunitiesManager" where
  "process wr (OnApplication community mac conn) m =
     fst (snd (HandleApplication wr community mac conn m))"
| "process wr (OnReady mac) m = fst (snd (HandleReady wr mac m))"
| "process wr (OnOffer offer) m = fst (snd (CommunitiesManager_HandleOffer wr offer m))"
| "process wr (OnAnswer answer) m = fst (snd (CommunitiesManager_HandleAnswer wr answer m))"
| "process wr (OnCandidate candidate) m =
     fst (snd (CommunitiesManager_HandleCandidate wr candidate m))"
| "process wr (OnExited mac) m = fst (snd (HandleExited wr mac m))"

fun run :: "(writer \<times> event) list \<Rightarrow> CommunitiesManager \<Rightarrow> CommunitiesManager" where
  "run [] m = m"
| "run ((wr, ev) # rest) m = run rest (process wr ev m)"

text \<open>A run of Ready events, each with the behaviour of the transport while it is handled.\<close>

fun HandleReady_run ::
  "(writer \<times> mac) list \<Rightarrow> CommunitiesManager \<Rightarrow> CommunitiesManager \<times> delivery list" where
  "HandleReady_run [] m = (m, [])"
| "HandleReady_run ((wr, ready) # rest) m =
     (case HandleReady wr ready m of
        (res, m', out) \<Rightarrow>
          (case HandleReady_run rest m' of (m'', out') \<Rightarrow> (m'', out @ out')))"

text \<open>
  The Introduction messages delivered for the unordered pair of \<open>a\<close> and \<open>b\<close>. For every
  pair, \<open>ledger_covers\<close> bounds these deliveries, plus one if the ledger \<open>l0\<close> at the start
  held the pair, by one if the ledger holds the pair now and by zero otherwise.
\<close>

definition introductions_between :: "mac \<Rightarrow> mac \<Rightarrow> delivery list \<Rightarrow> nat" where
  "introductions_between a b out =
     length (filter (\<lambda>d. (fst d = b \<and> snd (snd d) = Introduction a)
                        \<or> (fst d = a \<and> snd (snd d) = Introduction b)) out)"

definition ledger_covers :: "(mac \<times> mac) list \<Rightarrow> CommunitiesManager \<Rightarrow> delivery list \<Rightarrow> bool" where
  "ledger_covers l0 m out \<longleftrightarrow>
     (\<forall>a b. introductions_between a b out + (if introduced_loop l0 a b then 1 else 0)
              \<le> (if introduced m a b then 1 else 0))"

section \<open>Sample transports and server states\<close>

text \<open>
  A transport on which every write succeeds, one on which every write fails, and one that
  refuses only the zero-value connection.
\<close>

definition sound_transport :: writer where
  "sound_transport c msg = True"

definition broken_transport :: writer where
  "broken_transport c msg = False"

definition live_transport :: writer where
  "live_transport c msg = (c \<noteq> ZeroConn)"

text \<open>
  One community with three, two and one members, all with endpoint entries; \<open>trio\<close> and
  \<open>duo\<close> pairwise introduced, \<open>fresh_duo\<close> with an empty ledger. \<open>stray_offer\<close> is addressed
  to a mac that is not registered in \<open>one_peer\<close>.
\<close>

definition trio :: CommunitiesManager where
  "trio = \<lparr>communities = [(''c'', [''A'', ''B'', ''C''])],
           macs = [''A'' \<mapsto> Conn 1, ''B'' \<mapsto> Conn 2, ''C'' \<mapsto> Conn 3],
           introducedPeers = [(''A'', ''B''), (''A'', ''C''), (''B'', ''C'')]\<rparr>"

definition duo :: CommunitiesManager where
  "duo = \<lparr>communities = [(''c'', [''A'', ''B''])],
          macs = [''A'' \<mapsto> Conn 1, ''B'' \<mapsto> Conn 2],
          introducedPeers = [(''A'', ''B'')]\<rparr>"

definition fresh_duo :: CommunitiesManager where
  "fresh_duo = \<lparr>communities = [(''c'', [''A'', ''B''])],
          macs = [''A'' \<mapsto> Conn 1, ''B'' \<mapsto> Conn 2],
          introducedPeers = []\<rparr>"

definition one_peer :: CommunitiesManager where
  "one_peer = \<lparr>communities = [(''c'', [''m1''])], macs = [''m1'' \<mapsto> Conn 1], introducedPeers = []\<rparr>"


section \<open>Counting candidates, sample stacks and client states\<close>

text \<open>Counting, for one remote, the candidates applied and the Candidate messages received.\<close>

fun is_ice_call :: "call \<Rightarrow> bool" where
  "is_ice_call (AddICECandidateCall c) = True"
| "is_ice_call (SetRemoteDescriptionCall d) = False"

definition ice_calls :: "ClientManager \<Rightarrow> mac \<Rightarrow> nat" where
  "ice_calls m k =
     (case map_of (peers m) k of
        None \<Rightarrow> 0
      | Some p \<Rightarrow> length (filter is_ice_call (history (connection p))))"

fun candidates_from :: "mac \<Rightarrow> inbound list \<Rightarrow> nat" where
  "candidates_from k [] = 0"
| "candidates_from k (InCandidate c # rest) =
     (if SenderMac c = k then 1 else 0) + candidates_from k rest"
| "candidates_from k (InAnswer a # rest) = candidates_from k rest"
| "candidates_from k (InResignation r # rest) = candidates_from k rest"

text \<open>
  Sample stacks: \<open>permissive\<close> lets every library call succeed, \<open>lossy\<close> differs in that
  every \<^verbatim>\<open>Send\<close> fails. Sample client states: \<open>offering\<close> has created peers for R and S and
  awaits their answers, \<open>buffering\<close> has buffered two candidates of R before its answer,
  \<open>connected\<close> has open channels to R and S.
\<close>

definition permissive :: stack where
  "permissive = \<lparr>unmarshal = Some,
                 setRemoteDescription_ok = (\<lambda>pc desc. True),
                 addICECandidate_ok = (\<lambda>pc c. True),
                 marshal = (\<lambda>k msg. Some (k @ msg)),
                 send_ok = (\<lambda>dc w. True)\<rparr>"

definition lossy :: stack where
  "lossy = permissive\<lparr>send_ok := (\<lambda>dc w. False)\<rparr>"

definition fresh_connection :: PeerConnection where
  "fresh_connection = \<lparr>remoteDescription = None, history = []\<rparr>"

definition offering :: ClientManager where
  "offering = \<lparr>peers = [(''R'', \<lparr>connection = fresh_connection, channel = None, candidates = []\<rparr>),
                        (''S'', \<lparr>connection = fresh_connection, channel = None, candidates = []\<rparr>)],
               own_mac = ''self''\<rparr>"

definition buffering :: ClientManager where
  "buffering = \<lparr>peers = [(''R'', \<lparr>connection = fresh_connection, channel = None,
                                  candidates = [''c1'', ''c2'']\<rparr>)],
                own_mac = ''self''\<rparr>"

definition connected :: ClientManager where
  "connected = \<lparr>peers = [(''self'', \<lparr>connection = fresh_connection, channel = None, candidates = []\<rparr>),
                         (''R'', \<lparr>connection = fresh_connection, channel = Some (DataChannel 1),
                                  candidates = []\<rparr>),
                         (''S'', \<lparr>connection = fresh_connection, channel = Some (DataChannel 2),
                                  candidates = []\<rparr>)],
                own_mac = ''self''\<rparr>"

definition answer_R :: relayed where
  "answer_R = \<lparr>Payload = ''a'', SenderMac = ''R'', ReceiverMac = ''self''\<rparr>"

definition candidate_R :: relayed where
  "candidate_R = \<lparr>Payload = ''c1'', SenderMac = ''R'', ReceiverMac = ''self''\<rparr>"

definition candidate_X :: relayed where
  "candidate_X = \<lparr>Payload = ''c1'', SenderMac = ''X'', ReceiverMac = ''self''\<rparr>"

section \<open>Facts about the server\<close>

lemma all_macs_simps [simp]:
  "all_macs [] = []" "all_macs ((k, r) # cs) = r @ all_macs cs"
  by (simp_all add: all_macs_def)

lemma roster_at_simps [simp]:
  "roster_at [] c = []"
  "roster_at ((k, r) # cs) c = (if k = c then r else roster_at cs c)"
  by (simp_all add: roster_at_def)

lemma getCommunity_loop_None: "getCommunity_loop cs mac = None \<longleftrightarrow> mac \<notin> set (all_macs cs)"
  by (induction cs) (auto split: if_splits)

lemma getCommunity_loop_key: "getCommunity_loop cs mac = Some c \<Longrightarrow> c \<in> fst ` set cs"
  by (induction cs) (auto split: if_splits)

lemma getCommunity_loop_Some:
  "getCommunity_loop cs mac = Some c \<Longrightarrow> distinct (map fst cs) \<Longrightarrow> mac \<in> set (roster_at cs c)"
proof (induction cs)
  case Nil
  then show ?case by simp
next
  case (Cons p cs)
  obtain k r where p: "p = (k, r)" by (cases p)
  show ?case
  proof (cases "mac \<in> set r")
    case True
    with Cons.prems p show ?thesis by simp
  next
    case False
    with Cons.prems p have g: "getCommunity_loop cs mac = Some c" by simp
    then have "c \<in> fst ` set cs" by (rule getCommunity_loop_key)
    with Cons.prems p have "k \<noteq> c" by auto
    with Cons.IH g Cons.prems p show ?thesis by simp
  qed
qed



lemma getCommunity_loop_unique:
  "distinct (all_macs cs) \<Longrightarrow> (c, r) \<in> set cs \<Longrightarrow> mac \<in> set r
   \<Longrightarrow> getCommunity_loop cs mac = Some c"
proof (induction cs)
  case Nil
  then show ?case by simp
next
  case (Cons p cs)
  obtain k v where p: "p = (k, v)" by (cases p)
  show ?case
  proof (cases "(c, r) = (k, v)")
    case True
    with Cons.prems p show ?thesis by simp
  next
    case False
    with Cons.prems(2) p have in_rest: "(c, r) \<in> set cs" by auto
    from Cons.prems p have d: "distinct (all_macs cs)" and disj: "set v \<inter> set (all_macs cs) = {}"
      by auto
    from in_rest Cons.prems(3) have "mac \<in> set (all_macs cs)"
      by (force simp: all_macs_def)
    with disj have "mac \<notin> set v" by auto
    with Cons.IH[OF d in_rest Cons.prems(3)] p show ?thesis by simp
  qed
qed

lemma all_macs_join:
  "set (all_macs (AList.update c (roster_at cs c @ [mac]) cs)) = insert mac (set (all_macs cs))"
proof (induction cs)
  case Nil
  show ?case by simp
next
  case (Cons p cs)
  obtain k r where p: "p = (k, r)" by (cases p)
  show ?case
  proof (cases "k = c")
    case True
    with p show ?thesis by simp
  next
    case False
    with p Cons.IH show ?thesis by simp
  qed
qed

lemma distinct_join:
  "distinct (all_macs cs) \<Longrightarrow> mac \<notin> set (all_macs cs)
   \<Longrightarrow> distinct (all_macs (AList.update c (roster_at cs c @ [mac]) cs))"
proof (induction cs)
  case Nil
  then show ?case by simp
next
  case (Cons p cs)
  obtain k r where p: "p = (k, r)" by (cases p)
  show ?case
  proof (cases "k = c")
    case True
    with Cons.prems p show ?thesis by auto
  next
    case False
    have j: "set (all_macs (AList.update c (roster_at cs c @ [mac]) cs)) = insert mac (set (all_macs cs))"
      by (rule all_macs_join)
    from Cons.prems p have d: "distinct (all_macs cs)" and n: "mac \<notin> set (all_macs cs)"
      and r: "distinct r" "mac \<notin> set r" "set r \<inter> set (all_macs cs) = {}" by auto
    from Cons.IH[OF d n] j r False p show ?thesis by auto
  qed
qed

lemma nonempty_update:
  "[] \<notin> set (map snd cs) \<Longrightarrow> r \<noteq> [] \<Longrightarrow> [] \<notin> set (map snd (AList.update c r cs))"
  by (induction cs) (auto split: if_splits)

lemma all_macs_append: "all_macs (xs @ ys) = all_macs xs @ all_macs ys"
  by (simp add: all_macs_def)

lemma alist_split:
  assumes "distinct (map fst cs)" "c \<in> fst ` set cs"
  shows "\<exists>xs r ys. cs = xs @ (c, r) # ys \<and> c \<notin> fst ` set xs \<and> c \<notin> fst ` set ys"
proof -
  from assms(2) obtain r where "(c, r) \<in> set cs" by auto
  then obtain xs ys where cs: "cs = xs @ (c, r) # ys" by (auto dest: split_list)
  with assms(1) have "c \<notin> fst ` set xs \<and> c \<notin> fst ` set ys" by auto
  with cs show ?thesis by blast
qed

lemma update_mid:
  "c \<notin> fst ` set xs \<Longrightarrow> AList.update c v (xs @ (c, r) # ys) = xs @ (c, v) # ys"
  by (induction xs) auto

lemma delete_mid:
  "c \<notin> fst ` set xs \<Longrightarrow> c \<notin> fst ` set ys \<Longrightarrow> AList.delete c (xs @ (c, v) # ys) = xs @ ys"
proof -
  assume a: "c \<notin> fst ` set xs" and b: "c \<notin> fst ` set ys"
  have "AList.delete c xs = xs" using a by (rule delete_id)
  moreover have "AList.delete c ys = ys" using b by (rule delete_id)
  ultimately show ?thesis by (simp add: AList.delete_eq)
qed

lemma roster_at_mid: "c \<notin> fst ` set xs \<Longrightarrow> roster_at (xs @ (c, r) # ys) c = r"
  by (induction xs) auto

lemma map_of_mid: "c \<notin> fst ` set xs \<Longrightarrow> map_of (xs @ (c, r) # ys) c = Some r"
  by (induction xs) auto

lemma removeAssociatedPairs_loop_filter:
  "removeAssociatedPairs_loop ps mac = filter (\<lambda>p. fst p \<noteq> mac \<and> snd p \<noteq> mac) ps"
  by (induction ps) auto

lemma write_receiver_present:
  "ms k = Some c
   \<Longrightarrow> write_receiver wr ms k msg = (if wr c msg then Returned None else Returned (Some WriteFailed))"
  by (simp add: write_receiver_def)

lemma write_receiver_missing: "ms k = None \<Longrightarrow> write_receiver wr ms k msg = Panicked NilDereference"
  by (simp add: write_receiver_def)

lemma conn_at_present: "ms k = Some c \<Longrightarrow> conn_at ms k = c"
  by (simp add: conn_at_def)

lemma HandleExited_loop_ok:
  "set xs \<subseteq> dom ms \<Longrightarrow> resignations_accepted wr e xs ms
   \<Longrightarrow> HandleExited_loop wr e xs ms out
       = (Returned None,
          out @ map (\<lambda>x. (x, conn_at ms x, Resignation e)) (filter (\<lambda>x. x \<noteq> e) xs))"
proof (induction xs arbitrary: out)
  case Nil
  show ?case by simp
next
  case (Cons x xs)
  from Cons.prems(1) obtain c where c: "ms x = Some c" and sub: "set xs \<subseteq> dom ms" by auto
  from Cons.prems(2) have acc: "resignations_accepted wr e xs ms"
    and here: "x = e \<or> wr (conn_at ms x) (Resignation e)"
    by (simp_all add: resignations_accepted_def)
  show ?case
  proof (cases "x = e")
    case True
    with Cons.IH[OF sub acc] show ?thesis by simp
  next
    case False
    with here c have "wr c (Resignation e)" by (simp add: conn_at_def)
    with False c Cons.IH[OF sub acc] show ?thesis
      by (simp add: write_receiver_present conn_at_present Let_def)
  qed
qed

lemma HandleExited_loop_fail:
  "set xs \<subseteq> dom ms \<Longrightarrow> \<not> resignations_accepted wr e xs ms
   \<Longrightarrow> fst (HandleExited_loop wr e xs ms out) = Returned (Some WriteFailed)"
proof (induction xs arbitrary: out)
  case Nil
  then show ?case by (simp add: resignations_accepted_def)
next
  case (Cons x xs)
  from Cons.prems(1) obtain c where c: "ms x = Some c" and sub: "set xs \<subseteq> dom ms" by auto
  show ?case
  proof (cases "x = e")
    case True
    with Cons.prems(2) have "\<not> resignations_accepted wr e xs ms"
      by (simp add: resignations_accepted_def)
    with True Cons.IH[OF sub] show ?thesis by simp
  next
    case False
    show ?thesis
    proof (cases "wr c (Resignation e)")
      case True
      with False c Cons.prems(2) have "\<not> resignations_accepted wr e xs ms"
        by (simp add: resignations_accepted_def conn_at_def)
      with True False c Cons.IH[OF sub] show ?thesis
        by (simp add: write_receiver_present Let_def)
    next
      case w: False
      with False c show ?thesis by (simp add: write_receiver_present Let_def)
    qed
  qed
qed

lemma roster_at_subset: "set (roster_at cs c) \<subseteq> set (all_macs cs)"
proof (induction cs)
  case Nil
  show ?case by simp
next
  case (Cons p cs)
  obtain k r where p: "p = (k, r)" by (cases p)
  from Cons.IH show ?case unfolding p by auto
qed

lemma deleteCommunity_loop_absent:
  "str \<notin> set zs \<Longrightarrow> deleteCommunity_loop zs str i ei = ei"
  by (induction zs arbitrary: i) auto

lemma deleteCommunity_loop_append:
  "deleteCommunity_loop (ys @ zs) str i ei
     = deleteCommunity_loop zs str (i + length ys) (deleteCommunity_loop ys str i ei)"
  by (induction ys arbitrary: i ei) auto

lemma deleteCommunity_distinct:
  assumes "distinct s" "str \<in> set s"
  shows "deleteCommunity s str = Inr (remove1 str s)"
proof -
  from assms(2) obtain ys zs where s: "s = ys @ str # zs" by (auto dest: split_list)
  with assms(1) have nz: "str \<notin> set zs" and ny: "str \<notin> set ys" by auto
  have "deleteCommunity_loop s str 0 0 = length ys"
    unfolding s by (simp add: deleteCommunity_loop_append deleteCommunity_loop_absent nz)
  moreover have "remove1 str s = ys @ zs" unfolding s using ny by (simp add: remove1_append)
  ultimately show ?thesis by (simp add: deleteCommunity_def s)
qed

lemma roster_distinct: "distinct (all_macs cs) \<Longrightarrow> distinct (roster_at cs c)"
  by (induction cs) auto

lemma roster_at_update_same: "roster_at (AList.update c s cs) c = s"
  by (simp add: roster_at_def update_conv')

text \<open>What is left of the rosters once a member has been cut out of its community.\<close>

lemma leave_communities:
  assumes keys: "distinct (map fst cs)"
    and dist: "distinct (all_macs cs)"
    and ne: "[] \<notin> set (map snd cs)"
    and c: "c \<in> fst ` set cs"
    and mem: "mac \<in> set (roster_at cs c)"
    and cs': "cs' = (let u = AList.update c (remove1 mac (roster_at cs c)) cs in
                     if remove1 mac (roster_at cs c) = [] then AList.delete c u else u)"
  shows "distinct (map fst cs') \<and> distinct (all_macs cs')
         \<and> set (all_macs cs') = set (all_macs cs) - {mac}
         \<and> [] \<notin> set (map snd cs')
         \<and> map_of cs' c = (if remove1 mac (roster_at cs c) = [] then None
                            else Some (remove1 mac (roster_at cs c)))
         \<and> (\<forall>k. k \<noteq> c \<longrightarrow> map_of cs' k = map_of cs k)"
proof -
  from alist_split[OF keys c] obtain xs r ys
    where split: "cs = xs @ (c, r) # ys" and nx: "c \<notin> fst ` set xs" and ny: "c \<notin> fst ` set ys"
    by blast
  have r: "roster_at cs c = r" unfolding split using nx by (rule roster_at_mid)
  from mem r have mr: "mac \<in> set r" by simp
  from dist have dr: "distinct r" and dx: "distinct (all_macs xs)" and dy: "distinct (all_macs ys)"
    and disj: "set (all_macs xs) \<inter> set r = {}" "set (all_macs xs) \<inter> set (all_macs ys) = {}"
      "set r \<inter> set (all_macs ys) = {}"
    unfolding split by (auto simp: all_macs_append)
  from disj mr have out: "mac \<notin> set (all_macs xs)" "mac \<notin> set (all_macs ys)" by auto
  have u: "AList.update c (remove1 mac r) cs = xs @ (c, remove1 mac r) # ys"
    unfolding split using nx by (rule update_mid)
  have sr: "set (remove1 mac r) = set r - {mac}" using dr by simp
  show ?thesis
  proof (cases "remove1 mac r = []")
    case True
    have "cs' = AList.delete c (xs @ (c, remove1 mac r) # ys)"
      using cs' r u True by (simp add: Let_def)
    then have e: "cs' = xs @ ys" using nx ny by (simp add: delete_mid)
    from True sr mr have single: "set r = {mac}" by auto
    have k: "distinct (map fst cs')" using keys unfolding e split by auto
    have d: "distinct (all_macs cs')" unfolding e using dx dy disj by (simp add: all_macs_append)
    have s: "set (all_macs cs') = set (all_macs cs) - {mac}"
      unfolding e split using single out by (auto simp: all_macs_append)
    have n: "[] \<notin> set (map snd cs')" using ne unfolding e split by auto
    have m1: "map_of cs' c = None" unfolding e using nx ny by (simp add: map_of_eq_None_iff)
    have m2: "\<forall>k. k \<noteq> c \<longrightarrow> map_of cs' k = map_of cs k"
      unfolding e split by (simp add: map_add_def split: option.splits)
    from k d s n m1 m2 True r show ?thesis by simp
  next
    case False
    have e: "cs' = xs @ (c, remove1 mac r) # ys" using cs' r u False by (simp add: Let_def)
    have k: "distinct (map fst cs')" using keys unfolding e split by auto
    have d: "distinct (all_macs cs')" unfolding e using dx dy dr disj sr
      by (auto simp: all_macs_append)
    have s: "set (all_macs cs') = set (all_macs cs) - {mac}"
      unfolding e split using sr out by (auto simp: all_macs_append)
    have n: "[] \<notin> set (map snd cs')" using ne False unfolding e split by auto
    have m1: "map_of cs' c = Some (remove1 mac r)" unfolding e using nx by (rule map_of_mid)
    have m2: "\<forall>k. k \<noteq> c \<longrightarrow> map_of cs' k = map_of cs k"
      unfolding e split by (simp add: map_add_def split: option.splits)
    from k d s n m1 m2 False r show ?thesis by simp
  qed
qed

lemma HandleApplication_state:
  "fst (snd (HandleApplication wr c mac conn m)) =
     (if macs m mac \<noteq> None then m
      else m\<lparr>macs := (macs m)(mac \<mapsto> conn),
             communities := AList.update c (roster_at (communities m) c @ [mac]) (communities m)\<rparr>)"
  by (simp add: HandleApplication_def Let_def)

lemma HandleApplication_invariant:
  assumes "roster_invariant m"
  shows "roster_invariant (fst (snd (HandleApplication wr c mac conn m)))"
proof (cases "macs m mac \<noteq> None")
  case True
  with assms show ?thesis by (simp add: HandleApplication_state)
next
  case False
  let ?cs = "communities m"
  from False assms have fresh: "mac \<notin> set (all_macs ?cs)"
    by (auto simp: roster_invariant_def)
  from assms have k: "distinct (map fst ?cs)" and d: "distinct (all_macs ?cs)"
    and s: "set (all_macs ?cs) = dom (macs m)" and n: "[] \<notin> set (map snd ?cs)"
    by (simp_all add: roster_invariant_def)
  let ?cs' = "AList.update c (roster_at ?cs c @ [mac]) ?cs"
  have k': "distinct (map fst ?cs')" using k by (rule distinct_update)
  have d': "distinct (all_macs ?cs')" using d fresh by (rule distinct_join)
  have s': "set (all_macs ?cs') = dom ((macs m)(mac \<mapsto> conn))"
    using s by (simp add: all_macs_join)
  have n': "[] \<notin> set (map snd ?cs')" using n by (rule nonempty_update) simp
  from False k' d' s' n' show ?thesis
    by (simp add: HandleApplication_state roster_invariant_def)
qed

lemma getCommunity_registered:
  assumes "roster_invariant m" "getCommunity m mac = Inr c"
  shows "c \<in> fst ` set (communities m) \<and> mac \<in> set (roster_at (communities m) c)"
proof -
  from assms(2) have g: "getCommunity_loop (communities m) mac = Some c"
    by (simp add: getCommunity_def split: option.splits)
  from assms(1) have "distinct (map fst (communities m))" by (simp add: roster_invariant_def)
  with g show ?thesis by (simp add: getCommunity_loop_key getCommunity_loop_Some)
qed

lemma HandleExited_registered:
  assumes inv: "roster_invariant m" and g: "getCommunity m mac = Inr c"
  shows "HandleExited wr mac m =
     (let r = roster_at (communities m) c;
          m1 = m\<lparr>introducedPeers := filter (\<lambda>p. fst p \<noteq> mac \<and> snd p \<noteq> mac) (introducedPeers m)\<rparr>
      in if resignations_accepted wr mac r (macs m) then
           (Returned None,
            m1\<lparr>macs := (macs m)(mac := None),
                communities :=
                  (let u = AList.update c (remove1 mac r) (communities m) in
                   if remove1 mac r = [] then AList.delete c u else u)\<rparr>,
            map (\<lambda>x. (x, conn_at (macs m) x, Resignation mac)) (filter (\<lambda>x. x \<noteq> mac) r))
         else (Returned (Some WriteFailed), m1, snd (HandleExited_loop wr mac r (macs m) [])))"
proof -
  let ?r = "roster_at (communities m) c"
  from getCommunity_registered[OF inv g] have mem: "mac \<in> set ?r" by simp
  from inv have "distinct (all_macs (communities m))" by (simp add: roster_invariant_def)
  then have dr: "distinct ?r" by (rule roster_distinct)
  have del: "deleteCommunity ?r mac = Inr (remove1 mac ?r)"
    using dr mem by (rule deleteCommunity_distinct)
  from inv have "set (all_macs (communities m)) = dom (macs m)" by (simp add: roster_invariant_def)
  with roster_at_subset[of "communities m" c] have sub: "set ?r \<subseteq> dom (macs m)" by simp
  show ?thesis
  proof (cases "resignations_accepted wr mac ?r (macs m)")
    case True
    from HandleExited_loop_ok[OF sub this, of "[]"]
    have l: "HandleExited_loop wr mac ?r (macs m) []
             = (Returned None,
                map (\<lambda>x. (x, conn_at (macs m) x, Resignation mac)) (filter (\<lambda>x. x \<noteq> mac) ?r))"
      by simp
    show ?thesis
      using True g l del
      by (simp add: HandleExited_def removeAssociatedPairs_def removeAssociatedPairs_loop_filter
          delete_mac_def roster_at_update_same Let_def)
  next
    case False
    from HandleExited_loop_fail[OF sub this, of "[]"]
    obtain out where l: "HandleExited_loop wr mac ?r (macs m) [] = (Returned (Some WriteFailed), out)"
      by (cases "HandleExited_loop wr mac ?r (macs m) []") auto
    show ?thesis
      using False g l
      by (simp add: HandleExited_def removeAssociatedPairs_def removeAssociatedPairs_loop_filter
          Let_def)
  qed
qed

lemma remove1_filter: "distinct r \<Longrightarrow> remove1 mac r = filter (\<lambda>x. x \<noteq> mac) r"
  by (simp add: distinct_remove1_removeAll removeAll_filter_not_eq) (metis)

lemma HandleExited_unregistered:
  "getCommunity m mac = Inl e \<Longrightarrow> HandleExited wr mac m = (Returned (Some e), m, [])"
  by (simp add: HandleExited_def)

lemma HandleExited_invariant:
  assumes inv: "roster_invariant m"
  shows "roster_invariant (fst (snd (HandleExited wr mac m)))"
proof (cases "getCommunity m mac")
  case (Inl e)
  with inv show ?thesis by (simp add: HandleExited_unregistered)
next
  case (Inr c)
  let ?cs = "communities m"
  let ?r = "roster_at ?cs c"
  let ?cs' = "let u = AList.update c (remove1 mac ?r) ?cs in
              if remove1 mac ?r = [] then AList.delete c u else u"
  from inv have k: "distinct (map fst ?cs)" and d: "distinct (all_macs ?cs)"
    and s: "set (all_macs ?cs) = dom (macs m)" and n: "[] \<notin> set (map snd ?cs)"
    by (simp_all add: roster_invariant_def)
  from getCommunity_registered[OF inv Inr]
  have c: "c \<in> fst ` set ?cs" and mem: "mac \<in> set ?r" by simp_all
  from leave_communities[OF k d n c mem refl]
  have k': "distinct (map fst ?cs')" and d': "distinct (all_macs ?cs')"
    and s': "set (all_macs ?cs') = set (all_macs ?cs) - {mac}"
    and n': "[] \<notin> set (map snd ?cs')"
    by simp_all
  have s'': "set (all_macs ?cs') = dom ((macs m)(mac := None))" using s' s by auto
  show ?thesis
  proof (cases "resignations_accepted wr mac ?r (macs m)")
    case True
    have "fst (snd (HandleExited wr mac m)) =
          m\<lparr>introducedPeers := filter (\<lambda>p. fst p \<noteq> mac \<and> snd p \<noteq> mac) (introducedPeers m),
            macs := (macs m)(mac := None), communities := ?cs'\<rparr>"
      using True by (simp add: HandleExited_registered[OF inv Inr] Let_def)
    with k' d' s'' n' show ?thesis by (simp add: roster_invariant_def)
  next
    case False
    have "fst (snd (HandleExited wr mac m)) =
          m\<lparr>introducedPeers := filter (\<lambda>p. fst p \<noteq> mac \<and> snd p \<noteq> mac) (introducedPeers m)\<rparr>"
      using False by (simp add: HandleExited_registered[OF inv Inr] Let_def)
    with inv show ?thesis by (simp add: roster_invariant_def)
  qed
qed

lemma HandleReady_loop_frame:
  "HandleReady_loop wr r xs m out = (res, m', out')
   \<Longrightarrow> communities m' = communities m \<and> macs m' = macs m"
proof (induction wr r xs m out rule: HandleReady_loop.induct)
  case (1 wr ready m out)
  then show ?case by simp
next
  case (2 wr ready mac rest m out)
  show ?case
  proof (cases "mac \<noteq> ready \<and> \<not> introduced m ready mac")
    case True
    show ?thesis
    proof (cases "write_receiver wr (macs m) mac (Introduction ready) = Returned None")
      case w: True
      from True w "2.prems"
      have "HandleReady_loop wr ready rest (introduce m ready mac)
              (out @ [(mac, conn_at (macs m) mac, Introduction ready)]) = (res, m', out')"
        by (simp add: Let_def)
      with "2.IH"(1)[OF _ refl _ refl] True w show ?thesis by (simp add: introduce_def)
    next
      case w: False
      with True "2.prems" show ?thesis by (simp add: Let_def)
    qed
  next
    case False
    show ?thesis
    proof (cases "mac \<noteq> ready")
      case True
      with False have i: "introduced m ready mac" by simp
      from True i "2.prems" have "HandleReady_loop wr ready rest m out = (res, m', out')"
        by (simp add: Let_def)
      with "2.IH"(2)[OF True refl] i show ?thesis by simp
    next
      case f: False
      with "2.prems" have "HandleReady_loop wr ready rest m out = (res, m', out')" by simp
      with "2.IH"(3)[OF f] show ?thesis by simp
    qed
  qed
qed

lemma HandleReady_invariant:
  assumes "roster_invariant m"
  shows "roster_invariant (fst (snd (HandleReady wr r m)))"
proof (cases "getCommunity m r")
  case (Inl e)
  with assms show ?thesis by (simp add: HandleReady_def)
next
  case (Inr c)
  obtain res m' out
    where l: "HandleReady_loop wr r (roster_at (communities m) c) m [] = (res, m', out)"
    by (cases "HandleReady_loop wr r (roster_at (communities m) c) m []") auto
  from HandleReady_loop_frame[OF l] assms have "roster_invariant m'"
    by (simp add: roster_invariant_def)
  with Inr l show ?thesis by (simp add: HandleReady_def)
qed

lemma relay_invariant:
  "roster_invariant m \<Longrightarrow> roster_invariant (fst (snd (CommunitiesManager_HandleOffer wr x m)))"
  "roster_invariant m \<Longrightarrow> roster_invariant (fst (snd (CommunitiesManager_HandleAnswer wr x m)))"
  "roster_invariant m \<Longrightarrow> roster_invariant (fst (snd (CommunitiesManager_HandleCandidate wr x m)))"
  by (simp_all add: CommunitiesManager_HandleOffer_def CommunitiesManager_HandleAnswer_def
      CommunitiesManager_HandleCandidate_def Let_def)

lemma process_invariant: "roster_invariant m \<Longrightarrow> roster_invariant (process wr ev m)"
  by (cases ev)
    (simp_all add: HandleApplication_invariant HandleExited_invariant HandleReady_invariant
      relay_invariant)

text \<open>
  Under the invariant the community that \<^verbatim>\<open>getCommunity\<close> returns does not depend on the
  order in which the range visits the map.
\<close>

lemma getCommunity_order_free:
  assumes "roster_invariant m"
  shows "getCommunity m mac = Inr c
     \<longleftrightarrow> map_of (communities m) c \<noteq> None \<and> mac \<in> set (roster_at (communities m) c)"
proof
  assume "getCommunity m mac = Inr c"
  from getCommunity_registered[OF assms this] show
    "map_of (communities m) c \<noteq> None \<and> mac \<in> set (roster_at (communities m) c)"
    by (simp add: map_of_eq_None_iff)
next
  assume a: "map_of (communities m) c \<noteq> None \<and> mac \<in> set (roster_at (communities m) c)"
  then obtain r where r: "map_of (communities m) c = Some r" by auto
  with a have mem: "mac \<in> set r" by (simp add: roster_at_def)
  from r have inl: "(c, r) \<in> set (communities m)" by (rule map_of_SomeD)
  from assms have d: "distinct (all_macs (communities m))"
    by (simp add: roster_invariant_def)
  from d inl mem have "getCommunity_loop (communities m) mac = Some c"
    by (rule getCommunity_loop_unique)
  then show "getCommunity m mac = Inr c" by (simp add: getCommunity_def)
qed

lemma run_invariant: "roster_invariant m \<Longrightarrow> roster_invariant (run evs m)"
  by (induction evs arbitrary: m) (auto simp: process_invariant)

lemma New_invariant: "roster_invariant NewCommunitiesManager"
  by (simp add: roster_invariant_def NewCommunitiesManager_def)

lemma introduced_loop_set: "introduced_loop l a b \<longleftrightarrow> (a, b) \<in> set l \<or> (b, a) \<in> set l"
proof (induction l)
  case Nil
  show ?case by simp
next
  case (Cons p l)
  obtain x y where p: "p = (x, y)" by (cases p)
  show ?case unfolding p using Cons.IH by auto
qed

lemma introduced_loop_commute: "introduced_loop l a b = introduced_loop l b a"
  unfolding introduced_loop_set by blast

lemma introduced_loop_append:
  "introduced_loop (l @ [(x, y)]) a b
     = (introduced_loop l a b \<or> (x = a \<and> y = b) \<or> (x = b \<and> y = a))"
  unfolding introduced_loop_set by auto

lemma introductions_between_append:
  "introductions_between a b (out @ out') = introductions_between a b out + introductions_between a b out'"
  by (simp add: introductions_between_def)

lemma introductions_between_single:
  "introductions_between a b [(p, c, Introduction r)]
     = (if (p = b \<and> r = a) \<or> (p = a \<and> r = b) then 1 else 0)"
  by (auto simp: introductions_between_def)

lemma ledger_covers_step:
  assumes cov: "ledger_covers l0 m out" and fresh: "\<not> introduced m r p"
  shows "ledger_covers l0 (introduce m r p) (out @ [(p, c, Introduction r)])"
  unfolding ledger_covers_def
proof (intro allI)
  fix a b
  from cov have ab: "introductions_between a b out + (if introduced_loop l0 a b then 1 else 0)
              \<le> (if introduced m a b then 1 else 0)"
    by (simp add: ledger_covers_def)
  show "introductions_between a b (out @ [(p, c, Introduction r)])
          + (if introduced_loop l0 a b then 1 else 0)
        \<le> (if introduced (introduce m r p) a b then 1 else 0)"
  proof (cases "(p = b \<and> r = a) \<or> (p = a \<and> r = b)")
    case True
    with fresh have "\<not> introduced m a b"
      by (auto simp: introduced_def introduced_loop_commute)
    with ab have z: "introductions_between a b out = 0" "\<not> introduced_loop l0 a b"
      by (auto split: if_splits)
    from True have "introduced (introduce m r p) a b"
      by (auto simp: introduced_def introduce_def introduced_loop_append)
    with z True show ?thesis
      by (simp add: introductions_between_append introductions_between_single)
  next
    case False
    have "introduced m a b \<Longrightarrow> introduced (introduce m r p) a b"
      by (simp add: introduced_def introduce_def introduced_loop_append)
    with ab False show ?thesis
      by (auto simp: introductions_between_append introductions_between_single split: if_splits)
  qed
qed

lemma HandleReady_loop_covers:
  "ledger_covers l0 m out \<Longrightarrow> HandleReady_loop wr r xs m out = (res, m', out')
   \<Longrightarrow> ledger_covers l0 m' out'"
proof (induction wr r xs m out rule: HandleReady_loop.induct)
  case (1 wr ready m out)
  then show ?case by simp
next
  case (2 wr ready mac rest m out)
  show ?case
  proof (cases "mac \<noteq> ready \<and> \<not> introduced m ready mac")
    case True
    show ?thesis
    proof (cases "write_receiver wr (macs m) mac (Introduction ready) = Returned None")
      case w: True
      from True w "2.prems"(2)
      have run: "HandleReady_loop wr ready rest (introduce m ready mac)
              (out @ [(mac, conn_at (macs m) mac, Introduction ready)]) = (res, m', out')"
        by (simp add: Let_def)
      from True have "\<not> introduced m ready mac" by simp
      with "2.prems"(1)
      have "ledger_covers l0 (introduce m ready mac)
              (out @ [(mac, conn_at (macs m) mac, Introduction ready)])"
        by (rule ledger_covers_step)
      with "2.IH"(1)[OF _ refl _ refl _ _ run] True w show ?thesis by simp
    next
      case w: False
      with True "2.prems" show ?thesis by (simp add: Let_def)
    qed
  next
    case False
    show ?thesis
    proof (cases "mac \<noteq> ready")
      case True
      with False have i: "introduced m ready mac" by simp
      from True i "2.prems"(2) have "HandleReady_loop wr ready rest m out = (res, m', out')"
        by (simp add: Let_def)
      with "2.IH"(2)[OF True refl _ "2.prems"(1)] i show ?thesis by simp
    next
      case f: False
      with "2.prems"(2) have "HandleReady_loop wr ready rest m out = (res, m', out')" by simp
      with "2.IH"(3)[OF f "2.prems"(1)] show ?thesis by simp
    qed
  qed
qed

lemma HandleReady_loop_prefix:
  "HandleReady_loop wr r xs m (pre @ out)
     = (case HandleReady_loop wr r xs m out of (res, m', out') \<Rightarrow> (res, m', pre @ out'))"
  by (induction wr r xs m out rule: HandleReady_loop.induct) (simp_all add: Let_def)

lemma HandleReady_covers:
  assumes cov: "ledger_covers l0 m pre" and h: "HandleReady wr r m = (res, m', out)"
  shows "ledger_covers l0 m' (pre @ out)"
proof (cases "getCommunity m r")
  case (Inl e)
  with h cov show ?thesis by (simp add: HandleReady_def)
next
  case (Inr c)
  with h have l: "HandleReady_loop wr r (roster_at (communities m) c) m [] = (res, m', out)"
    by (simp add: HandleReady_def)
  have "HandleReady_loop wr r (roster_at (communities m) c) m (pre @ []) = (res, m', pre @ out)"
    unfolding HandleReady_loop_prefix using l by simp
  then have "HandleReady_loop wr r (roster_at (communities m) c) m pre = (res, m', pre @ out)"
    by simp
  with cov show ?thesis by (rule HandleReady_loop_covers)
qed

lemma HandleReady_run_covers:
  "ledger_covers l0 m pre \<Longrightarrow> HandleReady_run evs m = (m', out)
   \<Longrightarrow> ledger_covers l0 m' (pre @ out)"
proof (induction evs arbitrary: m pre out m')
  case Nil
  then show ?case by simp
next
  case (Cons ev evs)
  obtain wr r where ev: "ev = (wr, r)" by (cases ev)
  obtain res m1 out1 where h: "HandleReady wr r m = (res, m1, out1)"
    by (cases "HandleReady wr r m") auto
  obtain m2 out2 where t: "HandleReady_run evs m1 = (m2, out2)"
    by (cases "HandleReady_run evs m1") auto
  from Cons.prems(2) ev h t have e: "m' = m2" "out = out1 @ out2" by simp_all
  from Cons.prems(1) h have "ledger_covers l0 m1 (pre @ out1)" by (rule HandleReady_covers)
  from Cons.IH[OF this t] e show ?case by simp
qed

lemma ledger_covers_start: "ledger_covers (introducedPeers m) m []"
  by (simp add: ledger_covers_def introductions_between_def introduced_def)

section \<open>Claims about the server\<close>

text \<open>
  Claim C2. Whatever Ready events the server handles, in whatever order and whatever the
  transport does, the Introduction messages it delivers for the unordered pair of
  \<open>a\<close> and \<open>b\<close> (Introduction of \<open>a\<close> to \<open>b\<close>, or of \<open>b\<close> to \<open>a\<close>) number at most one, and
  none at all when the ledger already holds the pair in either orientation at the start: the
  ledger is queried commutatively.
\<close>

theorem introduction_at_most_once:
  "introductions_between a b (snd (HandleReady_run evs m)) \<le> (if introduced m a b then 0 else 1)
   \<and> introduced m a b = introduced m b a"
proof -
  obtain m' out where r: "HandleReady_run evs m = (m', out)"
    by (cases "HandleReady_run evs m") auto
  from HandleReady_run_covers[OF ledger_covers_start r]
  have "introductions_between a b out + (if introduced_loop (introducedPeers m) a b then 1 else 0)
          \<le> (if introduced m' a b then 1 else 0)"
    by (simp add: ledger_covers_def)
  then have "introductions_between a b out \<le> (if introduced m a b then 0 else 1)"
    by (simp add: introduced_def split: if_splits)
  with r show ?thesis by (simp add: introduced_def introduced_loop_commute)
qed

theorem introduction_at_most_once_witness:
  "snd (HandleReady_run [(sound_transport, ''A''), (sound_transport, ''B''), (sound_transport, ''A'')]
          fresh_duo) = [(''B'', Conn 2, Introduction ''A'')]
   \<and> introductions_between ''A'' ''B''
        (snd (HandleReady_run
               [(sound_transport, ''A''), (sound_transport, ''B''), (sound_transport, ''A'')]
               fresh_duo)) \<le> 1"
  using introduction_at_most_once[of "''A''" "''B''"
      "[(sound_transport, ''A''), (sound_transport, ''B''), (sound_transport, ''A'')]" fresh_duo]
  by (simp add: fresh_duo_def HandleReady_def getCommunity_def roster_at_def conn_at_def
      write_receiver_def introduced_def introduce_def sound_transport_def Let_def)

text \<open>
  Claim C3, amended. An Application whose mac already has an endpoint entry leaves the whole
  server state (endpoint map, rosters, ledger) as it was. The handler writes Rejection on
  the applying connection; it returns \<^verbatim>\<open>nil\<close> when that write succeeds and the write's error
  when it fails.
\<close>

theorem duplicate_application_rejected:
  assumes "macs m mac \<noteq> None"
    and "HandleApplication wr community mac conn m = (res, m', out)"
  shows "m' = m
    \<and> res = (if wr conn Rejection then Returned None else Returned (Some WriteFailed))
    \<and> out = (if wr conn Rejection then [(mac, conn, Rejection)] else [])"
  using assms by (auto simp: HandleApplication_def split: if_splits)

theorem duplicate_application_rejected_witness:
  "macs one_peer ''m1'' \<noteq> None
   \<and> HandleApplication live_transport ''c'' ''m1'' (Conn 2) one_peer
       = (Returned None, one_peer, [(''m1'', Conn 2, Rejection)])"
proof -
  have h: "macs one_peer ''m1'' \<noteq> None" by (simp add: one_peer_def)
  obtain res m' out
    where r: "HandleApplication live_transport ''c'' ''m1'' (Conn 2) one_peer = (res, m', out)"
    by (cases "HandleApplication live_transport ''c'' ''m1'' (Conn 2) one_peer") auto
  from duplicate_application_rejected[OF h r] h r show ?thesis
    by (simp add: live_transport_def)
qed

text \<open>
  Claim C3 as stated says the handler reports no error. With one registered peer and a
  transport whose writes fail, the duplicate Application returns the write error.
\<close>

theorem duplicate_application_write_error:
  "macs one_peer ''m1'' \<noteq> None
   \<and> fst (HandleApplication broken_transport ''c'' ''m1'' (Conn 2) one_peer)
       = Returned (Some WriteFailed)"
  by (simp add: HandleApplication_def one_peer_def broken_transport_def)

text \<open>
  Claim C4, amended. In a state that satisfies the roster invariant, Exited for a mac that
  \<^verbatim>\<open>getCommunity\<close> finds in community \<open>c\<close> always purges the ledger pairs that involve the
  mac and keeps the others. When every Resignation write is accepted the handler returns
  \<^verbatim>\<open>nil\<close>, Resignation went to each other member of \<open>c\<close> exactly once, in roster order, and to
  nobody else, the endpoint entry of the mac is deleted, the mac is in no roster, and the
  entry of \<open>c\<close> holds the remaining members or is deleted when none remain; every other
  community is untouched. When a write fails the handler returns the write error at once:
  endpoint map and rosters are as before.
\<close>

theorem exited_effect:
  assumes inv: "roster_invariant m"
    and g: "getCommunity m mac = Inr c"
    and h: "HandleExited wr mac m = (res, m', out)"
  shows "introducedPeers m' = filter (\<lambda>p. fst p \<noteq> mac \<and> snd p \<noteq> mac) (introducedPeers m)
    \<and> (if resignations_accepted wr mac (roster_at (communities m) c) (macs m)
        then res = Returned None
           \<and> out = map (\<lambda>x. (x, conn_at (macs m) x, Resignation mac))
                     (filter (\<lambda>x. x \<noteq> mac) (roster_at (communities m) c))
           \<and> distinct (filter (\<lambda>x. x \<noteq> mac) (roster_at (communities m) c))
           \<and> macs m' = (macs m)(mac := None)
           \<and> mac \<notin> set (all_macs (communities m'))
           \<and> map_of (communities m') c =
               (if filter (\<lambda>x. x \<noteq> mac) (roster_at (communities m) c) = [] then None
                else Some (filter (\<lambda>x. x \<noteq> mac) (roster_at (communities m) c)))
           \<and> (\<forall>k. k \<noteq> c \<longrightarrow> map_of (communities m') k = map_of (communities m) k)
        else res = Returned (Some WriteFailed)
           \<and> macs m' = macs m \<and> communities m' = communities m)"
proof -
  let ?cs = "communities m"
  let ?r = "roster_at ?cs c"
  let ?cs' = "let u = AList.update c (remove1 mac ?r) ?cs in
              if remove1 mac ?r = [] then AList.delete c u else u"
  from inv have k: "distinct (map fst ?cs)" and d: "distinct (all_macs ?cs)"
    and n: "[] \<notin> set (map snd ?cs)"
    by (simp_all add: roster_invariant_def)
  from getCommunity_registered[OF inv g]
  have c: "c \<in> fst ` set ?cs" and mem: "mac \<in> set ?r" by simp_all
  have dr: "distinct ?r" using d by (rule roster_distinct)
  have rf: "remove1 mac ?r = filter (\<lambda>x. x \<noteq> mac) ?r" using dr by (rule remove1_filter)
  from leave_communities[OF k d n c mem refl]
  have s': "set (all_macs ?cs') = set (all_macs ?cs) - {mac}"
    and m1: "map_of ?cs' c = (if remove1 mac ?r = [] then None else Some (remove1 mac ?r))"
    and m2: "\<forall>k. k \<noteq> c \<longrightarrow> map_of ?cs' k = map_of ?cs k"
    by simp_all
  from s' have gone: "mac \<notin> set (all_macs ?cs')" by simp
  have df: "distinct (filter (\<lambda>x. x \<noteq> mac) ?r)" using dr by simp
  show ?thesis
  proof (cases "resignations_accepted wr mac ?r (macs m)")
    case True
    from h True have res: "res = Returned None"
      and m': "m' = m\<lparr>introducedPeers := filter (\<lambda>p. fst p \<noteq> mac \<and> snd p \<noteq> mac) (introducedPeers m),
                      macs := (macs m)(mac := None), communities := ?cs'\<rparr>"
      and out: "out = map (\<lambda>x. (x, conn_at (macs m) x, Resignation mac)) (filter (\<lambda>x. x \<noteq> mac) ?r)"
      by (simp_all add: HandleExited_registered[OF inv g] Let_def)
    have a: "communities m' = ?cs'" and b: "macs m' = (macs m)(mac := None)"
      and l: "introducedPeers m' = filter (\<lambda>p. fst p \<noteq> mac \<and> snd p \<noteq> mac) (introducedPeers m)"
      unfolding m' by simp_all
    from True res out df b l gone m1 m2 show ?thesis
      unfolding a rf by simp
  next
    case False
    from h False have res: "res = Returned (Some WriteFailed)"
      and m': "m' = m\<lparr>introducedPeers := filter (\<lambda>p. fst p \<noteq> mac \<and> snd p \<noteq> mac) (introducedPeers m)\<rparr>"
      by (simp_all add: HandleExited_registered[OF inv g] Let_def)
    from False res show ?thesis unfolding m' by simp
  qed
qed

theorem exited_effect_witness:
  "roster_invariant trio \<and> getCommunity trio ''C'' = Inr ''c''
   \<and> resignations_accepted sound_transport ''C'' (roster_at (communities trio) ''c'') (macs trio)
   \<and> (case HandleExited sound_transport ''C'' trio of (res, m', out) \<Rightarrow>
         res = Returned None
         \<and> introducedPeers m' = [(''A'', ''B'')]
         \<and> out = [(''A'', Conn 1, Resignation ''C''), (''B'', Conn 2, Resignation ''C'')]
         \<and> macs m' ''C'' = None
         \<and> map_of (communities m') ''c'' = Some [''A'', ''B''])"
proof -
  have inv: "roster_invariant trio"
    by (simp add: roster_invariant_def trio_def all_macs_def) auto
  have g: "getCommunity trio ''C'' = Inr ''c''"
    by (simp add: getCommunity_def trio_def)
  have acc: "resignations_accepted sound_transport ''C'' (roster_at (communities trio) ''c'') (macs trio)"
    by (simp add: resignations_accepted_def sound_transport_def list_all_iff)
  obtain res m' out where h: "HandleExited sound_transport ''C'' trio = (res, m', out)"
    by (cases "HandleExited sound_transport ''C'' trio") auto
  from exited_effect[OF inv g h] acc
  have "res = Returned None \<and> introducedPeers m' = [(''A'', ''B'')]
         \<and> out = [(''A'', Conn 1, Resignation ''C''), (''B'', Conn 2, Resignation ''C'')]
         \<and> macs m' ''C'' = None
         \<and> map_of (communities m') ''c'' = Some [''A'', ''B'']"
    by (simp add: trio_def roster_at_def conn_at_def)
  with inv g acc h show ?thesis by simp
qed

text \<open>
  Claim C4 as stated fails when a Resignation write fails: with members A and B and a
  transport whose writes fail, Exited for A returns the write error, nothing was delivered,
  and A keeps its endpoint entry and its place in the roster.
\<close>

theorem exited_write_failure:
  "roster_invariant duo \<and> getCommunity duo ''A'' = Inr ''c''
   \<and> (case HandleExited broken_transport ''A'' duo of (res, m', out) \<Rightarrow>
         res = Returned (Some WriteFailed) \<and> out = []
         \<and> macs m' ''A'' = Some (Conn 1)
         \<and> ''A'' \<in> set (all_macs (communities m')))"
proof -
  have inv: "roster_invariant duo"
    by (simp add: roster_invariant_def duo_def all_macs_def) auto
  have g: "getCommunity duo ''A'' = Inr ''c''"
    by (simp add: getCommunity_def duo_def)
  have "case HandleExited broken_transport ''A'' duo of (res, m', out) \<Rightarrow>
         res = Returned (Some WriteFailed) \<and> out = []
         \<and> macs m' ''A'' = Some (Conn 1)
         \<and> ''A'' \<in> set (all_macs (communities m'))"
    by (simp add: HandleExited_def getCommunity_def duo_def removeAssociatedPairs_def
        roster_at_def conn_at_def write_receiver_def broken_transport_def all_macs_def)
  with inv g show ?thesis by simp
qed

text \<open>
  Claim C5. After every prefix of every sequence of Application and Exited events handled
  from the empty server state (Ready and relayed messages may be interleaved as well),
  whatever the transport does: the macs in the rosters are exactly the macs with an endpoint
  entry, no mac occurs twice across all rosters, and no community has an empty roster (and
  community keys are unique, as in a Go map).
\<close>

theorem rosters_match_endpoints:
  "roster_invariant (run (take n evs) NewCommunitiesManager)"
  by (rule run_invariant[OF New_invariant])




section \<open>Facts about the client\<close>

lemma peer_at_Some [simp]: "map_of (peers m) k = Some p \<Longrightarrow> peer_at m k = Inr p"
  by (simp add: peer_at_def)

lemma peer_at_None [simp]: "map_of (peers m) k = None \<Longrightarrow> peer_at m k = Inl NilDereference"
  by (simp add: peer_at_def)

lemma map_of_store_connection:
  "map_of (peers (store_connection m k pc)) k' =
     (if k' = k then map_option (\<lambda>p. p\<lparr>connection := pc\<rparr>) (map_of (peers m) k)
      else map_of (peers m) k')"
  by (simp add: store_connection_def map_of_map_entry split: option.splits)

lemma map_of_append_candidate:
  "map_of (peers (append_candidate m k c)) k' =
     (if k' = k then map_option (\<lambda>p. p\<lparr>candidates := candidates p @ [c]\<rparr>) (map_of (peers m) k)
      else map_of (peers m) k')"
  by (simp add: append_candidate_def map_of_map_entry split: option.splits)

lemma map_of_clear_candidates:
  "map_of (peers (clear_candidates m k)) k' =
     (if k' = k then map_option (\<lambda>p. p\<lparr>candidates := []\<rparr>) (map_of (peers m) k)
      else map_of (peers m) k')"
  by (simp add: clear_candidates_def map_of_map_entry split: option.splits)

lemma own_mac_helpers [simp]:
  "own_mac (store_connection m k pc) = own_mac m"
  "own_mac (append_candidate m k c) = own_mac m"
  "own_mac (clear_candidates m k) = own_mac m"
  by (simp_all add: store_connection_def append_candidate_def clear_candidates_def)

lemma HandleAnswer_loop_drained:
  "HandleAnswer_loop st cs pc = (None, pc')
   \<Longrightarrow> pc' = pc\<lparr>history := history pc @ map AddICECandidateCall cs\<rparr>"
proof (induction cs arbitrary: pc)
  case Nil
  then show ?case by simp
next
  case (Cons c cs)
  show ?case
  proof (cases "addICECandidate_ok st pc c")
    case True
    with Cons.prems
    have "HandleAnswer_loop st cs (pc\<lparr>history := history pc @ [AddICECandidateCall c]\<rparr>) = (None, pc')"
      by (simp add: AddICECandidate_def)
    from Cons.IH[OF this] show ?thesis by simp
  next
    case False
    with Cons.prems show ?thesis by (simp add: AddICECandidate_def)
  qed
qed

lemma wg_Done_Returned:
  "wg_Done m wg = (Returned None, m', wg') \<Longrightarrow> m' = m \<and> wg' = wg - 1 \<and> 0 < wg"
  by (auto simp: wg_Done_def split: if_splits)

lemmas client_eval =
  ClientManager_HandleAnswer_def ClientManager_HandleCandidate_def HandleConn_Resignation_def
  HandleResignation_def getPeerConnection_def peer_at_def SetRemoteDescription_def
  AddICECandidate_def store_connection_def append_candidate_def clear_candidates_def
  wg_Done_def Let_def

lemma SendMessage_loop_shape:
  "length (snd (SendMessage_loop st w m ks)) \<le> 1
   \<and> (\<forall>e. fst (SendMessage_loop st w m ks) \<noteq> Returned (Some e))"
  by (induction ks) (auto simp: Let_def split: sum.splits option.splits)

lemma SendMessage_loop_first:
  "find (\<lambda>k. k \<noteq> own_mac m) ks = Some key \<Longrightarrow> map_of (peers m) key = Some pr
   \<Longrightarrow> channel pr = Some dc
   \<Longrightarrow> SendMessage_loop st w m ks = (Returned None, [(dc, w)])"
  by (induction ks) (auto simp: Let_def split: if_splits)

section \<open>Claims about the client\<close>

text \<open>
  Claim C1. The claim asks that the number of \<^verbatim>\<open>AddICECandidate\<close> calls on the connection of
  a remote equals the number of Candidate messages received from it. The code does not
  keep this: \<^verbatim>\<open>HandleCandidate\<close> applies a candidate that arrives after the remote description
  and appends it to the buffer all the same, and the next \<^verbatim>\<open>HandleAnswer\<close> drains the buffer.
  With two negotiations pending and a stack that accepts every call, Answer, Candidate,
  Answer from the remote R leave two \<^verbatim>\<open>AddICECandidate\<close> calls for the one Candidate.
\<close>

theorem candidate_applied_twice:
  "candidates_from ''R'' [InAnswer answer_R, InCandidate candidate_R, InAnswer answer_R] = 1
   \<and> (case HandleConn_loop permissive
              [InAnswer answer_R, InCandidate candidate_R, InAnswer answer_R] offering 2 of
         (p, m', wg') \<Rightarrow>
           p = None \<and> ice_calls m' ''R'' = 2
           \<and> map_of (peers m') ''R'' =
               Some \<lparr>connection = \<lparr>remoteDescription = Some ''a'',
                                    history = [SetRemoteDescriptionCall ''a'',
                                               AddICECandidateCall ''c1'',
                                               SetRemoteDescriptionCall ''a'',
                                               AddICECandidateCall ''c1'']\<rparr>,
                     channel = None, candidates = []\<rparr>)"
  by (simp add: client_eval ice_calls_def permissive_def offering_def answer_R_def
      candidate_R_def fresh_connection_def)

text \<open>
  Claim C6. When \<^verbatim>\<open>HandleAnswer\<close> returns \<^verbatim>\<open>nil\<close> for an Answer from a remote with peer entry
  \<open>p\<close>, the payload was unmarshalled to a description, the calls made on the connection of
  the remote are \<^verbatim>\<open>SetRemoteDescription\<close> with that description followed by one
  \<^verbatim>\<open>AddICECandidate\<close> for each buffered candidate in insertion order, the buffer of the
  remote is empty, and the entries of the other remotes are as before.
\<close>

theorem answer_installs_then_drains:
  assumes h: "ClientManager_HandleAnswer st wg answer m = (Returned None, m', wg')"
    and p: "map_of (peers m) (SenderMac answer) = Some p"
  shows "\<exists>desc. unmarshal st (Payload answer) = Some desc
     \<and> map_of (peers m') (SenderMac answer) =
         Some (p\<lparr>connection := (connection p)
                   \<lparr>remoteDescription := Some desc,
                    history := history (connection p)
                      @ SetRemoteDescriptionCall desc # map AddICECandidateCall (candidates p)\<rparr>,
                 candidates := []\<rparr>)
     \<and> (\<forall>k. k \<noteq> SenderMac answer \<longrightarrow> map_of (peers m') k = map_of (peers m) k)
     \<and> wg' = wg - 1"
proof -
  let ?k = "SenderMac answer"
  let ?pc = "connection p"
  from h obtain desc where u: "unmarshal st (Payload answer) = Some desc"
    by (cases "unmarshal st (Payload answer)") (auto simp: ClientManager_HandleAnswer_def)
  have g: "getPeerConnection m ?k = Inr (?pc, None)" using p by (simp add: getPeerConnection_def)
  have ok: "setRemoteDescription_ok st ?pc desc"
  proof (rule ccontr)
    assume "\<not> setRemoteDescription_ok st ?pc desc"
    with h u g show False
      by (simp add: ClientManager_HandleAnswer_def SetRemoteDescription_def)
  qed
  let ?pc1 = "?pc\<lparr>remoteDescription := Some desc,
                   history := history ?pc @ [SetRemoteDescriptionCall desc]\<rparr>"
  let ?m1 = "store_connection m ?k ?pc1"
  have s: "SetRemoteDescription st ?pc desc = (None, ?pc1)"
    using ok by (simp add: SetRemoteDescription_def)
  have p1: "map_of (peers ?m1) ?k = Some (p\<lparr>connection := ?pc1\<rparr>)"
    using p by (simp add: map_of_store_connection)
  show ?thesis
  proof (cases "candidates p = []")
    case True
    from h u g s p1 True have "wg_Done ?m1 wg = (Returned None, m', wg')"
      by (simp add: ClientManager_HandleAnswer_def Let_def)
    then have e: "m' = ?m1" "wg' = wg - 1" by (auto dest: wg_Done_Returned)
    have "p\<lparr>connection := ?pc1\<rparr> =
          p\<lparr>connection := ?pc
               \<lparr>remoteDescription := Some desc,
                history := history ?pc
                  @ SetRemoteDescriptionCall desc # map AddICECandidateCall (candidates p)\<rparr>,
             candidates := []\<rparr>"
      using True by simp
    with u e p1 show ?thesis by (simp add: map_of_store_connection)
  next
    case False
    obtain r pc2 where l: "HandleAnswer_loop st (candidates p) ?pc1 = (r, pc2)"
      by (cases "HandleAnswer_loop st (candidates p) ?pc1") auto
    have r: "r = None"
    proof (cases r)
      case None
      then show ?thesis .
    next
      case (Some e)
      with h u g s p1 False l show ?thesis
        by (simp add: ClientManager_HandleAnswer_def Let_def)
    qed
    from HandleAnswer_loop_drained[OF l[unfolded r]]
    have pc2: "pc2 = ?pc\<lparr>remoteDescription := Some desc,
                history := history ?pc
                  @ SetRemoteDescriptionCall desc # map AddICECandidateCall (candidates p)\<rparr>"
      by simp
    let ?m2 = "clear_candidates (store_connection ?m1 ?k pc2) ?k"
    from h u g s p1 False l r have "wg_Done ?m2 wg = (Returned None, m', wg')"
      by (simp add: ClientManager_HandleAnswer_def Let_def)
    then have e: "m' = ?m2" "wg' = wg - 1" by (auto dest: wg_Done_Returned)
    have "map_of (peers ?m2) ?k = Some (p\<lparr>connection := pc2, candidates := []\<rparr>)"
      using p by (simp add: map_of_clear_candidates map_of_store_connection)
    moreover have "\<forall>k. k \<noteq> ?k \<longrightarrow> map_of (peers ?m2) k = map_of (peers m) k"
      by (simp add: map_of_clear_candidates map_of_store_connection)
    ultimately show ?thesis using u e pc2 by simp
  qed
qed

theorem answer_installs_then_drains_witness:
  "map_of (peers buffering) (SenderMac answer_R)
     = Some \<lparr>connection = fresh_connection, channel = None, candidates = [''c1'', ''c2'']\<rparr>
   \<and> (case ClientManager_HandleAnswer permissive 1 answer_R buffering of
         (res, m', wg') \<Rightarrow>
           res = Returned None \<and> wg' = 0
           \<and> map_of (peers m') ''R'' =
               Some \<lparr>connection = \<lparr>remoteDescription = Some ''a'',
                                    history = [SetRemoteDescriptionCall ''a'',
                                               AddICECandidateCall ''c1'',
                                               AddICECandidateCall ''c2'']\<rparr>,
                     channel = None, candidates = []\<rparr>)"
proof -
  have p: "map_of (peers buffering) (SenderMac answer_R)
     = Some \<lparr>connection = fresh_connection, channel = None, candidates = [''c1'', ''c2'']\<rparr>"
    by (simp add: buffering_def answer_R_def)
  have h: "ClientManager_HandleAnswer permissive 1 answer_R buffering
           = (Returned None, snd (ClientManager_HandleAnswer permissive 1 answer_R buffering))"
    by (simp add: ClientManager_HandleAnswer_def permissive_def answer_R_def buffering_def
        getPeerConnection_def peer_at_def SetRemoteDescription_def AddICECandidate_def
        store_connection_def clear_candidates_def wg_Done_def fresh_connection_def Let_def)
  obtain m' wg' where s: "snd (ClientManager_HandleAnswer permissive 1 answer_R buffering) = (m', wg')"
    by (cases "snd (ClientManager_HandleAnswer permissive 1 answer_R buffering)") auto
  from answer_installs_then_drains[OF h[unfolded s] p] p h s show ?thesis
    by (auto simp: permissive_def answer_R_def fresh_connection_def)
qed

text \<open>
  Claim C8, amended. \<^verbatim>\<open>HandleResignation\<close> takes no mac, returns \<^verbatim>\<open>nil\<close> and changes nothing:
  after a Resignation the peer map is what it was, for the remote that resigned as for
  every other remote.
\<close>

theorem resignation_is_ignored:
  "HandleResignation m = (Returned None, m) \<and> HandleConn_Resignation remote m = m"
  by (simp add: HandleResignation_def HandleConn_Resignation_def)

text \<open>
  Claim C8 as stated says the state of the remote is removed from the peer map. After the
  Resignation of R the entry of R is still there, with its connection.
\<close>

theorem resignation_keeps_peer:
  "map_of (peers (HandleConn_Resignation ''R'' offering)) ''R''
     = Some \<lparr>connection = fresh_connection, channel = None, candidates = []\<rparr>"
  by (simp add: HandleResignation_def HandleConn_Resignation_def offering_def)

text \<open>
  Claim C9. \<^verbatim>\<open>getPeerConnection\<close> never returns a non-nil error: it panics on a nil
  dereference when the mac has no entry in the peer map, and returns the connection with a
  \<^verbatim>\<open>nil\<close> error when it has one. So for a Candidate whose sender has no entry
  \<^verbatim>\<open>HandleCandidate\<close> panics, and for such an Answer \<^verbatim>\<open>HandleAnswer\<close> panics unless the
  payload already failed to unmarshal; neither returns an error from the lookup.
\<close>

theorem peer_lookup_never_errs:
  "(\<forall>pc e. getPeerConnection m k \<noteq> Inr (pc, Some e))
   \<and> (map_of (peers m) k = None \<longrightarrow> getPeerConnection m k = Inl NilDereference)
   \<and> (map_of (peers m) k \<noteq> None \<longrightarrow> (\<exists>pc. getPeerConnection m k = Inr (pc, None)))
   \<and> (map_of (peers m) (SenderMac x) = None \<longrightarrow>
        ClientManager_HandleCandidate st x m = (Panicked NilDereference, m)
        \<and> ClientManager_HandleAnswer st wg x m =
            (if unmarshal st (Payload x) = None then (Returned (Some UnmarshalFailed), m, wg)
             else (Panicked NilDereference, m, wg)))"
  by (auto simp: getPeerConnection_def peer_at_def ClientManager_HandleCandidate_def
      ClientManager_HandleAnswer_def split: option.splits)

theorem peer_lookup_never_errs_witness:
  "map_of (peers offering) (SenderMac candidate_X) = None
   \<and> map_of (peers offering) ''R'' \<noteq> None
   \<and> getPeerConnection offering ''X'' = Inl NilDereference
   \<and> getPeerConnection offering ''R'' = Inr (fresh_connection, None)
   \<and> ClientManager_HandleCandidate permissive candidate_X offering = (Panicked NilDereference, offering)
   \<and> ClientManager_HandleAnswer permissive 1 candidate_X offering
        = (Panicked NilDereference, offering, 1)"
proof -
  have a: "map_of (peers offering) (SenderMac candidate_X) = None"
    by (simp add: offering_def candidate_X_def)
  have b: "map_of (peers offering) ''R'' \<noteq> None" by (simp add: offering_def)
  have c: "getPeerConnection offering ''R'' = Inr (fresh_connection, None)"
    by (simp add: getPeerConnection_def peer_at_def offering_def)
  from peer_lookup_never_errs[of offering "''X''" candidate_X permissive 1] a b c
  show ?thesis by (simp add: candidate_X_def permissive_def)
qed

text \<open>
  Claim C10. Let marshalling succeed and let \<open>key\<close> be the first key of the range that
  differs from the own mac. \<^verbatim>\<open>SendMessage\<close> makes at most one \<^verbatim>\<open>Send\<close> call and never returns
  a non-nil error; when the channel of that peer is open it makes exactly that one call and
  returns \<^verbatim>\<open>nil\<close>, whether the call succeeds or fails. \<^verbatim>\<open>SendMessageUnicast\<close> to a peer with
  an open channel returns \<^verbatim>\<open>nil\<close> in both cases as well.
\<close>

theorem send_failure_not_reported:
  assumes w: "marshal st (own_mac m) msg = Some w"
    and key: "find (\<lambda>k. k \<noteq> own_mac m) (map fst (peers m)) = Some key"
  shows "length (snd (SendMessage st msg m)) \<le> 1
    \<and> (\<forall>e. fst (SendMessage st msg m) \<noteq> Returned (Some e))
    \<and> (\<forall>pr dc. map_of (peers m) key = Some pr \<and> channel pr = Some dc
          \<longrightarrow> SendMessage st msg m = (Returned None, [(dc, w)]))
    \<and> (\<forall>pr dc. map_of (peers m) k = Some pr \<and> channel pr = Some dc
          \<longrightarrow> SendMessageUnicast st msg k m = (Returned None, [(dc, w)]))"
proof -
  have s: "SendMessage st msg m = SendMessage_loop st w m (map fst (peers m))"
    using w by (simp add: SendMessage_def)
  have a: "length (snd (SendMessage st msg m)) \<le> 1
      \<and> (\<forall>e. fst (SendMessage st msg m) \<noteq> Returned (Some e))"
    unfolding s by (rule SendMessage_loop_shape)
  have b: "\<forall>pr dc. map_of (peers m) key = Some pr \<and> channel pr = Some dc
          \<longrightarrow> SendMessage st msg m = (Returned None, [(dc, w)])"
    unfolding s using key by (auto intro: SendMessage_loop_first)
  have c: "\<forall>pr dc. map_of (peers m) k = Some pr \<and> channel pr = Some dc
          \<longrightarrow> SendMessageUnicast st msg k m = (Returned None, [(dc, w)])"
    using w by (simp add: SendMessageUnicast_def Let_def)
  from a b c show ?thesis by simp
qed

theorem send_failure_not_reported_witness:
  "marshal lossy (own_mac connected) ''hello'' = Some ''selfhello''
   \<and> find (\<lambda>k. k \<noteq> own_mac connected) (map fst (peers connected)) = Some ''R''
   \<and> SendMessage lossy ''hello'' connected = (Returned None, [(DataChannel 1, ''selfhello'')])
   \<and> SendMessage permissive ''hello'' connected = (Returned None, [(DataChannel 1, ''selfhello'')])
   \<and> SendMessageUnicast lossy ''hello'' ''S'' connected
        = (Returned None, [(DataChannel 2, ''selfhello'')])"
proof -
  have w: "marshal lossy (own_mac connected) ''hello'' = Some ''selfhello''"
    by (simp add: lossy_def permissive_def connected_def)
  have w': "marshal permissive (own_mac connected) ''hello'' = Some ''selfhello''"
    by (simp add: permissive_def connected_def)
  have key: "find (\<lambda>k. k \<noteq> own_mac connected) (map fst (peers connected)) = Some ''R''"
    by (simp add: connected_def)
  have r: "map_of (peers connected) ''R''
            = Some \<lparr>connection = fresh_connection, channel = Some (DataChannel 1), candidates = []\<rparr>"
    and s: "map_of (peers connected) ''S''
            = Some \<lparr>connection = fresh_connection, channel = Some (DataChannel 2), candidates = []\<rparr>"
    by (simp_all add: connected_def)
  from send_failure_not_reported[OF w key, of "''S''"] send_failure_not_reported[OF w' key, of "''S''"]
    r s w key
  show ?thesis by simp
qed

end
